theory Spec2Isabelle
  imports Main "HOL-Library.Word"
begin

section \<open>Strings, positions and the string-view primitives\<close>

text \<open>
  \<^verbatim>\<open>std::wstring\<close> on the target platform is a sequence of 16-bit code units (WCHAR);
  \<^verbatim>\<open>std::string\<close> is a sequence of bytes. A position is a \<^verbatim>\<open>size_t\<close>; the
  result \<^verbatim>\<open>npos\<close> of a search is modelled by \<open>None\<close>, every other position by
  \<open>Some n\<close> (a string is always shorter than \<^verbatim>\<open>npos\<close>, so no position of a string
  and no sum of a position and a length within it wraps around).
\<close>

type_synonym wchar = "16 word"
type_synonym wstring = "wchar list"
type_synonym bytes = "char list"

definition wch :: "char \<Rightarrow> wchar" where
  "wch c = of_char c"

definition wstr :: "string \<Rightarrow> wstring" where
  "wstr s = map wch s"

text \<open>
  \<open>find_first w s\<close> is the least index at which \<open>w\<close> occurs in \<open>s\<close>;
  \<open>sv_find s w pos\<close> is \<^verbatim>\<open>s.find(w, pos)\<close> of \<^verbatim>\<open>std::basic_string_view\<close>: the least
  \<open>i \<ge> pos\<close> with \<open>w\<close> at \<open>i\<close>, \<open>npos\<close> when there is none or \<open>pos\<close> is beyond
  the end. \<open>sv_find_ch s c pos\<close> is \<^verbatim>\<open>s.find(c, pos)\<close> for a single character.
\<close>

fun find_first :: "'a list \<Rightarrow> 'a list \<Rightarrow> nat option" where
  "find_first w [] = (if w = [] then Some 0 else None)"
| "find_first w (x # xs) =
     (if take (length w) (x # xs) = w then Some 0
      else map_option Suc (find_first w xs))"

definition sv_find :: "'a list \<Rightarrow> 'a list \<Rightarrow> nat \<Rightarrow> nat option" where
  "sv_find s w pos =
     (if length s < pos then None
      else map_option (\<lambda>i. pos + i) (find_first w (drop pos s)))"

definition sv_find_ch :: "'a list \<Rightarrow> 'a \<Rightarrow> nat \<Rightarrow> nat option" where
  "sv_find_ch s c pos = sv_find s [c] pos"

lemma find_first_bound:
  "find_first w s = Some i \<Longrightarrow> i + length w \<le> length s"
proof (induction s arbitrary: i)
  case Nil
  then show ?case by (simp split: if_splits)
next
  case (Cons x xs)
  show ?case
  proof (cases "take (length w) (x # xs) = w")
    case True
    then have "length (take (length w) (x # xs)) = length w"
      by simp
    then have "min (length w) (length (x # xs)) = length w"
      by (simp only: length_take)
    then have "length w \<le> length (x # xs)"
      by arith
    with True Cons.prems show ?thesis by simp
  next
    case False
    with Cons.prems obtain j where "find_first w xs = Some j" "i = Suc j"
      by auto
    with Cons.IH show ?thesis by fastforce
  qed
qed

lemma sv_find_bound:
  "sv_find s w p = Some i \<Longrightarrow> p \<le> i \<and> i + length w \<le> length s"
  by (auto simp: sv_find_def split: if_splits dest!: find_first_bound)

lemma sv_find_ch_bound:
  "sv_find_ch s c p = Some i \<Longrightarrow> p \<le> i \<and> i < length s"
  by (auto simp: sv_find_ch_def dest!: sv_find_bound)

section \<open>Text locator\<close>

definition LT :: wchar where "LT = wch (CHR ''<'')"
definition GT :: wchar where "GT = wch (CHR ''>'')"

text \<open>
  The inner \<^verbatim>\<open>for (;;)\<close> of \<^verbatim>\<open>FindWord\<close> on \<^verbatim>\<open>beforeWord\<close>: \<open>True\<close> is the exit
  through \<^verbatim>\<open>return wordPos\<close> (no more \<^verbatim>\<open><\<close>), \<open>False\<close> is the \<^verbatim>\<open>break\<close>
  (a \<^verbatim>\<open><\<close> without a later \<^verbatim>\<open>>\<close>).
\<close>

function tag_check :: "wstring \<Rightarrow> bool" where
  "tag_check beforeWord =
     (case sv_find_ch beforeWord LT 0 of
        None \<Rightarrow> True
      | Some tagStart \<Rightarrow>
          (case sv_find_ch beforeWord GT (tagStart + 1) of
             None \<Rightarrow> False
           | Some tagEnd \<Rightarrow> tag_check (drop (tagEnd + 1) beforeWord)))"
  by pat_completeness auto
termination
  by (relation "measure length") (auto dest!: sv_find_ch_bound)

declare tag_check.simps [simp del]

lemma tag_check_Nil: "tag_check []"
  by (subst tag_check.simps) (simp add: sv_find_ch_def sv_find_def)

definition AMP :: wchar where "AMP = wch (CHR ''&'')"
definition QUOT :: wchar where "QUOT = wch (CHR 0x22)"
definition APOS :: wchar where "APOS = wch (CHR 0x27)"

fun XmlEscape :: "wstring \<Rightarrow> wstring" where
  "XmlEscape [] = []"
| "XmlEscape (ch # rest) =
     (if ch = LT then wstr ''&lt;''
      else if ch = GT then wstr ''&gt;''
      else if ch = AMP then wstr ''&amp;''
      else if ch = QUOT then wstr ''&quot;''
      else if ch = APOS then wstr ''&apos;''
      else [ch]) @ XmlEscape rest"

lemma restart_after_reject:
  assumes "sv_find ssml word startpos = Some wordPos"
    and "\<not> tag_check (take (wordPos - startpos) (drop startpos ssml))"
    and "sv_find_ch ssml GT (wordPos + length word) = Some startpos'"
  shows "startpos < startpos' \<and> startpos' < length ssml"
proof -
  have "wordPos - startpos \<noteq> 0"
  proof
    assume "wordPos - startpos = 0"
    then have "take (wordPos - startpos) (drop startpos ssml) = []"
      by simp
    with assms(2) show False
      by (simp add: tag_check_Nil)
  qed
  moreover have "wordPos + length word \<le> startpos'" "startpos' < length ssml"
    using sv_find_ch_bound [OF assms(3)] by simp_all
  ultimately show ?thesis
    by arith
qed

text \<open>
  The \<^verbatim>\<open>while\<close> loop of \<^verbatim>\<open>FindWord\<close>, with \<^verbatim>\<open>startpos\<close> as its loop variable. The
  result \<open>Some wordPos\<close> is the \<^verbatim>\<open>return wordPos\<close> inside the loop, \<open>None\<close> is the
  \<^verbatim>\<open>return ssml.npos\<close> after it. When the search for the next \<^verbatim>\<open>>\<close> gives \<^verbatim>\<open>npos\<close>,
  the loop condition \<^verbatim>\<open>ssml.find(word, npos)\<close> is \<^verbatim>\<open>npos\<close> and the loop ends.
  \<^verbatim>\<open>ssml.substr(startpos, wordPos - startpos)\<close> is \<open>take (wordPos - startpos) (drop startpos ssml)\<close>;
  it cannot throw, since \<open>startpos \<le> wordPos \<le> length ssml\<close> there (\<open>sv_find_bound\<close>).
\<close>

function FindWord_loop :: "wstring \<Rightarrow> wstring \<Rightarrow> nat \<Rightarrow> nat option" where
  "FindWord_loop ssml word startpos =
     (case sv_find ssml word startpos of
        None \<Rightarrow> None
      | Some wordPos \<Rightarrow>
          if tag_check (take (wordPos - startpos) (drop startpos ssml)) then Some wordPos
          else (case sv_find_ch ssml GT (wordPos + length word) of
                  None \<Rightarrow> None
                | Some startpos' \<Rightarrow> FindWord_loop ssml word startpos'))"
  by pat_completeness auto
termination
  by (relation "measure (\<lambda>(ssml, word, startpos). length ssml - startpos)")
    (auto dest: restart_after_reject)

declare FindWord_loop.simps [simp del]

text \<open>
  \<^verbatim>\<open>FindWord(utf8Word, lastPos)\<close>: the result and the new value of the in/out argument
  \<^verbatim>\<open>lastPos\<close>. \<^verbatim>\<open>UTF8ToWString\<close> is declared in a header that is not part of the
  sources at hand and is a parameter.
\<close>

definition FindWord ::
    "(bytes \<Rightarrow> wstring) \<Rightarrow> wstring \<Rightarrow> bytes \<Rightarrow> nat \<Rightarrow> nat option \<times> nat" where
  "FindWord UTF8ToWString ssml utf8Word lastPos =
     (let word = XmlEscape (UTF8ToWString utf8Word)
      in case FindWord_loop ssml word lastPos of
           None \<Rightarrow> (None, lastPos)
         | Some wordPos \<Rightarrow> (Some wordPos, wordPos + length word))"


text \<open>
  The same loop, counting how often its body is entered.
\<close>

function FindWord_iterations :: "wstring \<Rightarrow> wstring \<Rightarrow> nat \<Rightarrow> nat" where
  "FindWord_iterations ssml word startpos =
     (case sv_find ssml word startpos of
        None \<Rightarrow> 0
      | Some wordPos \<Rightarrow>
          if tag_check (take (wordPos - startpos) (drop startpos ssml)) then 1
          else (case sv_find_ch ssml GT (wordPos + length word) of
                  None \<Rightarrow> 1
                | Some startpos' \<Rightarrow> 1 + FindWord_iterations ssml word startpos'))"
  by pat_completeness auto
termination
  by (relation "measure (\<lambda>(ssml, word, startpos). length ssml - startpos)")
    (auto dest: restart_after_reject)

declare FindWord_iterations.simps [simp del]

text \<open>
  Two notions to speak about the locator: \<open>occurs_at s w p\<close> says that \<open>w\<close> occurs
  in \<open>s\<close> at offset \<open>p\<close>; \<open>in_tag b s\<close> scans \<open>s\<close> from left to right, starting
  outside (\<open>b = False\<close>) or inside (\<open>b = True\<close>) a tag, and tells whether the scan ends
  inside a tag: \<^verbatim>\<open><\<close> opens one, the next \<^verbatim>\<open>>\<close> closes it.
\<close>

definition occurs_at :: "'a list \<Rightarrow> 'a list \<Rightarrow> nat \<Rightarrow> bool" where
  "occurs_at s w p \<longleftrightarrow> p + length w \<le> length s \<and> take (length w) (drop p s) = w"

fun in_tag :: "bool \<Rightarrow> wstring \<Rightarrow> bool" where
  "in_tag b [] = b"
| "in_tag b (c # cs) = in_tag (if b then c \<noteq> GT else c = LT) cs"

section \<open>JSON values and exceptions\<close>

text \<open>
  The values of \<^verbatim>\<open>nlohmann::json\<close> that the code reads or builds. An object lists its
  members in the order a range-for visits them. \<open>json_at\<close> is \<^verbatim>\<open>at(key)\<close>, the
  \<open>get_\<close> functions are the implicit conversions to \<^verbatim>\<open>std::string\<close> and to an
  integer type; \<open>json_elements\<close> is what a range-for over the value visits.
\<close>

datatype json =
    JNull
  | JBool bool
  | JNumber int
  | JString string
  | JArray "json list"
  | JObject "(string \<times> json) list"

datatype exn =
    JsonParseError
  | JsonOutOfRange
  | JsonTypeError
  | WebsocketException
  | SystemError nat
  | DecoderError nat

fun json_at :: "json \<Rightarrow> string \<Rightarrow> exn + json" where
  "json_at (JObject members) key =
     (case map_of members key of None \<Rightarrow> Inl JsonOutOfRange | Some v \<Rightarrow> Inr v)"
| "json_at _ key = Inl JsonTypeError"

fun get_string :: "json \<Rightarrow> exn + string" where
  "get_string (JString s) = Inr s"
| "get_string _ = Inl JsonTypeError"

fun get_number :: "json \<Rightarrow> exn + int" where
  "get_number (JNumber n) = Inr n"
| "get_number _ = Inl JsonTypeError"

definition string_at :: "json \<Rightarrow> string \<Rightarrow> exn + string" where
  "string_at j key = (case json_at j key of Inl e \<Rightarrow> Inl e | Inr v \<Rightarrow> get_string v)"

definition number_at :: "json \<Rightarrow> string \<Rightarrow> exn + int" where
  "number_at j key = (case json_at j key of Inl e \<Rightarrow> Inl e | Inr v \<Rightarrow> get_number v)"

fun json_elements :: "json \<Rightarrow> json list" where
  "json_elements (JArray xs) = xs"
| "json_elements (JObject members) = map snd members"
| "json_elements JNull = []"
| "json_elements v = [v]"

section \<open>The session object\<close>

text \<open>
  A connection is identified by a number; a \<^verbatim>\<open>connection_hdl\<close> is the connection it
  refers to, or \<open>None\<close> when it has expired, so that \<^verbatim>\<open>get_con_from_hdl\<close> is the
  identity. What the object hands to its collaborators (the transport, the decoder, the
  host's callbacks) is recorded, oldest first, in the field \<open>calls\<close>.
\<close>

type_synonym connection = nat
type_synonym connection_hdl = "connection option"

datatype body = JsonDump json | Utf8 wstring

datatype call =
    Send connection_hdl string body
  | Connect connection
  | CloseNormal connection
  | Convert bytes
  | VisemeCall "64 word" int
  | PunctuationBoundaryCall "64 word" "32 word" int
  | WordBoundaryCall "64 word" "32 word" int
  | SentenceBoundaryCall "64 word" "32 word" int
  | SessionEndCall "64 word"
  | BookmarkCall "64 word" string

datatype outcome = Value | Exception exn

text \<open>
  The members of \<^verbatim>\<open>SpeechRestAPI\<close>. \<open>m_speakPromise\<close> holds the calls of
  \<^verbatim>\<open>set_value\<close> and \<^verbatim>\<open>set_exception\<close> made on the current promise object, oldest
  first: the future receives the first, and \<^verbatim>\<open>std::promise\<close> raises on any later one.
  \<open>mp3Decoder\<close> is the local variable of \<^verbatim>\<open>Mp3Thread\<close>: the chunks fed to the current
  decoder instance since it was created.
\<close>

record state =
  m_ssml :: wstring
  m_lastWordPos :: nat
  m_lastSentencePos :: nat
  m_connection :: "connection option"
  m_speakPromise :: "outcome list"
  m_isPromiseSet :: bool
  m_mp3Queue :: "bytes list"
  m_mp3QueueDone :: bool
  m_isStopping :: bool
  mp3Decoder :: "bytes list"
  calls :: "call list"

text \<open>
  The six callback members; each field tells whether a handler is registered, which is
  what the conversion of a \<^verbatim>\<open>std::function\<close> to \<^verbatim>\<open>bool\<close> gives. An invocation of
  a registered handler is recorded in \<open>calls\<close>.
\<close>

record callbacks =
  VisemeCallback :: bool
  PunctuationBoundaryCallback :: bool
  WordBoundaryCallback :: bool
  SentenceBoundaryCallback :: bool
  SessionEndCallback :: bool
  BookmarkCallback :: bool

text \<open>
  What the collaborators outside these sources do: the string conversions of
  \<^verbatim>\<open>StrUtils.h\<close>, \<^verbatim>\<open>nlohmann::json::parse\<close> (\<open>None\<close> is its parse error), the
  clock and the GUID source, the exceptions that \<^verbatim>\<open>send\<close>, \<^verbatim>\<open>close\<close>,
  \<^verbatim>\<open>get_connection\<close> and \<^verbatim>\<open>Mp3Decoder::Convert\<close> raise (the latter as a function
  of the chunks the decoder instance has been fed before and of the new chunk), and the
  order in which the compiler evaluates the arguments of a call.
\<close>

record env =
  UTF8ToWString :: "bytes \<Rightarrow> wstring"
  json_parse :: "bytes \<Rightarrow> json option"
  GetTimeStamp :: "nat \<Rightarrow> string"
  MakeRandomUuid :: string
  send_raises :: "string \<Rightarrow> body \<Rightarrow> exn option"
  close_raises :: "exn option"
  get_connection :: "exn + connection"
  Convert_raises :: "bytes list \<Rightarrow> bytes \<Rightarrow> exn option"
  args_left_to_right :: bool

definition record_call :: "call \<Rightarrow> state \<Rightarrow> state" where
  "record_call c st = st\<lparr>calls := calls st @ [c]\<rparr>"

subsection \<open>Completion\<close>

text \<open>
  \<^verbatim>\<open>m_isPromiseSet.test_and_set()\<close> is one atomic step: it returns the old value of
  the flag and leaves the flag set.
\<close>

definition test_and_set :: "state \<Rightarrow> bool \<times> state" where
  "test_and_set st = (m_isPromiseSet st, st\<lparr>m_isPromiseSet := True\<rparr>)"

definition promise_set :: "outcome \<Rightarrow> state \<Rightarrow> state" where
  "promise_set r st = st\<lparr>m_speakPromise := m_speakPromise st @ [r]\<rparr>"

definition SpeakComplete :: "state \<Rightarrow> state" where
  "SpeakComplete st =
     (case test_and_set st of
        (was_set, st') \<Rightarrow> if \<not> was_set then promise_set Value st' else st')"

definition SpeakError :: "exn \<Rightarrow> state \<Rightarrow> state" where
  "SpeakError ex st =
     (case test_and_set st of
        (was_set, st') \<Rightarrow> if \<not> was_set then promise_set (Exception ex) st' else st')"

text \<open>
  Several threads may be inside \<^verbatim>\<open>SpeakComplete\<close> or \<^verbatim>\<open>SpeakError\<close> at once (the
  network thread, the decode worker). A thread that has called one of them is before its
  \<^verbatim>\<open>test_and_set\<close> (\<open>Entered\<close>), between a \<^verbatim>\<open>test_and_set\<close> that returned false
  and its \<^verbatim>\<open>set_value\<close> or \<^verbatim>\<open>set_exception\<close> (\<open>Setting\<close>), or has returned.
  \<open>race sched\<close> runs the threads in the order the schedule \<open>sched\<close> names them, one
  atomic step each time.
\<close>

datatype trigger = Complete | Error exn

fun outcome_of :: "trigger \<Rightarrow> outcome" where
  "outcome_of Complete = Value"
| "outcome_of (Error ex) = Exception ex"

datatype thread = Entered trigger | Setting trigger | Returned

fun thread_step :: "thread \<Rightarrow> state \<Rightarrow> thread \<times> state" where
  "thread_step (Entered t) st =
     (case test_and_set st of
        (was_set, st') \<Rightarrow> (if \<not> was_set then Setting t else Returned, st'))"
| "thread_step (Setting t) st = (Returned, promise_set (outcome_of t) st)"
| "thread_step Returned st = (Returned, st)"

fun race :: "nat list \<Rightarrow> thread list \<times> state \<Rightarrow> thread list \<times> state" where
  "race [] cfg = cfg"
| "race (i # sched) (ths, st) =
     (if i < length ths
      then (case thread_step (ths ! i) st of
              (th', st') \<Rightarrow> race sched (ths[i := th'], st'))
      else race sched (ths, st))"


subsection \<open>Audio pipeline\<close>

definition Mp3QueuePush :: "bytes \<Rightarrow> state \<Rightarrow> state" where
  "Mp3QueuePush msg st = st\<lparr>m_mp3Queue := m_mp3Queue st @ [msg]\<rparr>"

definition Mp3QueueDone :: "state \<Rightarrow> state" where
  "Mp3QueueDone st = st\<lparr>m_mp3QueueDone := True\<rparr>"

text \<open>
  One pass of the decode worker through the section of \<^verbatim>\<open>Mp3Thread\<close> that holds the
  queue's lock, from the \<^verbatim>\<open>while\<close> condition on. The worker leaves it having returned
  (\<open>Exited\<close>), blocked in \<^verbatim>\<open>wait\<close> (\<open>Waiting\<close>; when it is woken it evaluates the
  \<^verbatim>\<open>while\<close> condition again, which is another pass), or with the front message taken
  from the queue (\<open>Dequeued\<close>).
\<close>

datatype worker = Waiting | Dequeued bytes | Exited

definition Mp3Thread_locked :: "state \<Rightarrow> worker \<times> state" where
  "Mp3Thread_locked st =
     (if \<not> m_isStopping st \<and> m_mp3Queue st = [] then
        (if m_mp3QueueDone st
         then (Waiting, (SpeakComplete st)\<lparr>mp3Decoder := [], m_mp3QueueDone := False\<rparr>)
         else (Waiting, st))
      else if m_isStopping st then (Exited, st)
      else (Dequeued (hd (m_mp3Queue st)), st\<lparr>m_mp3Queue := tl (m_mp3Queue st)\<rparr>))"

text \<open>
  The rest of the iteration, without the lock, on the message taken from the queue.
  \<^verbatim>\<open>remove_prefix(2)\<close> on a view shorter than two bytes has undefined behaviour, which
  is the result \<open>None\<close>. An exception of \<^verbatim>\<open>Convert\<close> is caught and passed to
  \<^verbatim>\<open>SpeakError\<close>.
\<close>

definition audio_marker :: bytes where
  "audio_marker = ''Path:audio'' @ [CHR 0x0D, CHR 0x0A]"

definition Mp3Thread_process :: "env \<Rightarrow> bytes \<Rightarrow> state \<Rightarrow> state option" where
  "Mp3Thread_process env msg st =
     (if length msg < 2 then None
      else (let mp3data = drop 2 msg
            in case sv_find mp3data audio_marker 0 of
                 None \<Rightarrow> Some st
               | Some delimPos \<Rightarrow>
                   (let mp3data' = drop (delimPos + 12) mp3data;
                        st' = record_call (Convert mp3data')
                                (st\<lparr>mp3Decoder := mp3Decoder st @ [mp3data']\<rparr>)
                    in case Convert_raises env (mp3Decoder st) mp3data' of
                         None \<Rightarrow> Some st'
                       | Some ex \<Rightarrow> Some (SpeakError ex st'))))"

text \<open>
  One activation of the worker: the locked section and, when a message was taken, its
  processing.
\<close>

definition Mp3Thread_iteration :: "env \<Rightarrow> state \<Rightarrow> (worker \<times> state) option" where
  "Mp3Thread_iteration env st =
     (case Mp3Thread_locked st of
        (Dequeued msg, st') \<Rightarrow> map_option (Pair Waiting) (Mp3Thread_process env msg st')
      | (w, st') \<Rightarrow> Some (w, st'))"

subsection \<open>Session controller\<close>

text \<open>
  \<^verbatim>\<open>SpeakAsync\<close>: \<^verbatim>\<open>get_connection\<close> gives the new connection or raises. The
  subscription header and the proxy are set on the connection object and do not touch the
  members. \<^verbatim>\<open>m_speakPromise = {}\<close> is a new promise, on which nothing has been set.
  \<^verbatim>\<open>Stop\<close> closes the connection with the overload that takes an error code and does
  not raise.
\<close>

definition SpeakAsync :: "env \<Rightarrow> wstring \<Rightarrow> state \<Rightarrow> exn option \<times> state" where
  "SpeakAsync env ssml st =
     (case get_connection env of
        Inl ex \<Rightarrow> (Some ex, st)
      | Inr con \<Rightarrow>
          (None, record_call (Connect con)
             (st\<lparr>m_ssml := ssml, m_lastWordPos := 0, m_lastSentencePos := 0,
                  m_speakPromise := [], m_isPromiseSet := False,
                  m_connection := Some con\<rparr>)))"

definition Stop :: "state \<Rightarrow> state" where
  "Stop st =
     (let st1 = (case m_connection st of
                   None \<Rightarrow> st
                 | Some con \<Rightarrow> (record_call (CloseNormal con) st)\<lparr>m_connection := None\<rparr>)
      in st1\<lparr>m_mp3Queue := [], m_mp3QueueDone := True\<rparr>)"

definition IsCurrentConnection :: "state \<Rightarrow> connection_hdl \<Rightarrow> bool" where
  "IsCurrentConnection st hdl \<longleftrightarrow> m_connection st \<noteq> None \<and> m_connection st = hdl"

definition OnClose :: "connection_hdl \<Rightarrow> state \<Rightarrow> exn option \<times> state" where
  "OnClose hdl st =
     (if \<not> IsCurrentConnection st hdl then (None, st)
      else (None, Mp3QueueDone (st\<lparr>m_connection := None\<rparr>)))"

text \<open>
  \<^verbatim>\<open>OnFail\<close>: \<open>ec\<close> is the error code of the failed connection, \<open>0\<close> for no error;
  \<^verbatim>\<open>throw_error\<close> raises only for an error, and the handler catches what it raises.
\<close>

definition OnFail :: "nat \<Rightarrow> connection_hdl \<Rightarrow> state \<Rightarrow> exn option \<times> state" where
  "OnFail ec hdl st =
     (if \<not> IsCurrentConnection st hdl then (None, st)
      else (let st' = Mp3QueueDone (st\<lparr>m_connection := None\<rparr>)
            in if ec \<noteq> 0 then (None, SpeakError (SystemError ec) st') else (None, st')))"

text \<open>
  The JSON that \<^verbatim>\<open>OnOpen\<close> builds. The members of an object are in key order, the order
  in which \<^verbatim>\<open>nlohmann::json\<close> keeps and dumps them (the source writes
  \<^verbatim>\<open>wordBoundaryEnabled\<close> before \<^verbatim>\<open>visemeEnabled\<close>).
\<close>

definition metadataOptions :: "callbacks \<Rightarrow> json" where
  "metadataOptions cbs = JObject
     [(''bookmarkEnabled'', JBool (BookmarkCallback cbs)),
      (''punctuationBoundaryEnabled'', JBool (PunctuationBoundaryCallback cbs)),
      (''sentenceBoundaryEnabled'', JBool (SentenceBoundaryCallback cbs)),
      (''visemeEnabled'', JBool (VisemeCallback cbs)),
      (''wordBoundaryEnabled'', JBool (WordBoundaryCallback cbs))]"

definition speech_config :: "callbacks \<Rightarrow> json" where
  "speech_config cbs = JObject
     [(''context'', JObject
        [(''synthesis'', JObject
           [(''audio'', JObject
              [(''metadataOptions'', metadataOptions cbs),
               (''outputFormat'', JString ''audio-24khz-96kbitrate-mono-mp3'')]),
            (''language'', JObject
              [(''autoDetection'', JBool False)])])])]"

definition CRLF :: string where
  "CRLF = [CHR 0x0D, CHR 0x0A]"

definition config_header :: "string \<Rightarrow> string" where
  "config_header ts =
     ''X-Timestamp:'' @ ts @ CRLF
     @ ''Content-Type:application/json; charset=utf-8'' @ CRLF
     @ ''Path:speech.config'' @ CRLF @ CRLF"

definition ssml_header :: "string \<Rightarrow> string \<Rightarrow> string" where
  "ssml_header ts reqId =
     ''X-Timestamp:'' @ ts @ CRLF
     @ ''X-RequestId:'' @ reqId @ CRLF
     @ ''Content-Type:application/ssml+xml'' @ CRLF
     @ ''Path:ssml'' @ CRLF @ CRLF"

text \<open>
  \<^verbatim>\<open>m_client.send(hdl, payload, opcode::text)\<close>: the call is recorded, with the payload
  as its header text and its body; then it raises or not.
\<close>

definition send :: "env \<Rightarrow> connection_hdl \<Rightarrow> string \<Rightarrow> body \<Rightarrow> state \<Rightarrow> exn option \<times> state" where
  "send env hdl header b st = (send_raises env header b, record_call (Send hdl header b) st)"

definition OnOpen :: "env \<Rightarrow> callbacks \<Rightarrow> connection_hdl \<Rightarrow> state \<Rightarrow> exn option \<times> state" where
  "OnOpen env cbs hdl st =
     (if \<not> IsCurrentConnection st hdl then (None, st)
      else (let json = speech_config cbs;
                reqId = MakeRandomUuid env
            in case send env hdl (config_header (GetTimeStamp env 0)) (JsonDump json) st of
                 (Some ex, st1) \<Rightarrow> (Some ex, st1)
               | (None, st1) \<Rightarrow>
                   send env hdl (ssml_header (GetTimeStamp env 1) reqId) (Utf8 (m_ssml st1)) st1))"


subsection \<open>Boundary events\<close>

text \<open>
  The two members that \<^verbatim>\<open>FindWord\<close> is called on, and the call on one of them: the
  result and the state with that member updated.
\<close>

datatype cursor = WordPos | SentencePos

fun cursor_value :: "cursor \<Rightarrow> state \<Rightarrow> nat" where
  "cursor_value WordPos st = m_lastWordPos st"
| "cursor_value SentencePos st = m_lastSentencePos st"

fun cursor_update :: "cursor \<Rightarrow> nat \<Rightarrow> state \<Rightarrow> state" where
  "cursor_update WordPos n st = st\<lparr>m_lastWordPos := n\<rparr>"
| "cursor_update SentencePos n st = st\<lparr>m_lastSentencePos := n\<rparr>"

definition FindWord_member :: "env \<Rightarrow> cursor \<Rightarrow> bytes \<Rightarrow> state \<Rightarrow> nat option \<times> state" where
  "FindWord_member env cur utf8Word st =
     (case FindWord (UTF8ToWString env) (m_ssml st) utf8Word (cursor_value cur st) of
        (r, lastPos) \<Rightarrow> (r, cursor_update cur lastPos st))"

text \<open>
  The cast \<^verbatim>\<open>(uint32_t)\<close> of the result of \<^verbatim>\<open>FindWord\<close>; \<^verbatim>\<open>npos\<close> has all bits set.
\<close>

definition to_uint32 :: "nat option \<Rightarrow> 32 word" where
  "to_uint32 r = (case r of None \<Rightarrow> - 1 | Some n \<Rightarrow> of_nat n)"

text \<open>
  The arguments \<^verbatim>\<open>(uint32_t)FindWord(info.at("Text"), cursor)\<close> and
  \<^verbatim>\<open>info.at("Length")\<close> of a boundary callback, evaluated in either order; an
  exception leaves the effects of what was evaluated before it.
\<close>

definition boundary_args ::
    "env \<Rightarrow> cursor \<Rightarrow> json \<Rightarrow> state \<Rightarrow> (exn + 32 word \<times> int) \<times> state" where
  "boundary_args env cur info st =
     (if args_left_to_right env then
        (case string_at info ''Text'' of
           Inl ex \<Rightarrow> (Inl ex, st)
         | Inr text \<Rightarrow>
             (case FindWord_member env cur text st of
                (r, st') \<Rightarrow>
                  (case number_at info ''Length'' of
                     Inl ex \<Rightarrow> (Inl ex, st')
                   | Inr len \<Rightarrow> (Inr (to_uint32 r, len), st'))))
      else
        (case number_at info ''Length'' of
           Inl ex \<Rightarrow> (Inl ex, st)
         | Inr len \<Rightarrow>
             (case string_at info ''Text'' of
                Inl ex \<Rightarrow> (Inl ex, st)
              | Inr text \<Rightarrow>
                  (case FindWord_member env cur text st of
                     (r, st') \<Rightarrow> (Inr (to_uint32 r, len), st')))))"

definition boundary_callback ::
    "env \<Rightarrow> (64 word \<Rightarrow> 32 word \<Rightarrow> int \<Rightarrow> call) \<Rightarrow> cursor \<Rightarrow> 64 word \<Rightarrow> json \<Rightarrow> state
      \<Rightarrow> exn option \<times> state" where
  "boundary_callback env cb cur offset info st =
     (case boundary_args env cur info st of
        (Inl ex, st') \<Rightarrow> (Some ex, st')
      | (Inr (pos, len), st') \<Rightarrow> (None, record_call (cb offset pos len) st'))"

definition OnSynthEvent :: "env \<Rightarrow> callbacks \<Rightarrow> json \<Rightarrow> state \<Rightarrow> exn option \<times> state" where
  "OnSynthEvent env cbs metadata st =
     (case string_at metadata ''Type'' of
        Inl ex \<Rightarrow> (Some ex, st)
      | Inr type \<Rightarrow>
     (case json_at metadata ''Data'' of
        Inl ex \<Rightarrow> (Some ex, st)
      | Inr data \<Rightarrow>
     (case number_at data ''Offset'' of
        Inl ex \<Rightarrow> (Some ex, st)
      | Inr off \<Rightarrow>
       (let offset = (of_int off :: 64 word) in
        if type = ''Viseme'' then
          (if VisemeCallback cbs then
             (case number_at data ''VisemeId'' of
                Inl ex \<Rightarrow> (Some ex, st)
              | Inr v \<Rightarrow> (None, record_call (VisemeCall offset v) st))
           else (None, st))
        else if type = ''WordBoundary'' then
          (case json_at data ''text'' of
             Inl ex \<Rightarrow> (Some ex, st)
           | Inr info \<Rightarrow>
               (case string_at info ''BoundaryType'' of
                  Inl ex \<Rightarrow> (Some ex, st)
                | Inr bt \<Rightarrow>
                    if bt = ''PunctuationBoundary'' then
                      (if PunctuationBoundaryCallback cbs
                       then boundary_callback env PunctuationBoundaryCall WordPos offset info st
                       else (None, st))
                    else
                      (if WordBoundaryCallback cbs
                       then boundary_callback env WordBoundaryCall WordPos offset info st
                       else (None, st))))
        else if type = ''SentenceBoundary'' then
          (case json_at data ''text'' of
             Inl ex \<Rightarrow> (Some ex, st)
           | Inr info \<Rightarrow>
               (if SentenceBoundaryCallback cbs
                then boundary_callback env SentenceBoundaryCall SentencePos offset info st
                else (None, st)))
        else if type = ''SessionEnd'' then
          (if SessionEndCallback cbs
           then (None, record_call (SessionEndCall offset) st)
           else (None, st))
        else if type = ''Bookmark'' then
          (if BookmarkCallback cbs then
             (case string_at data ''Bookmark'' of
                Inl ex \<Rightarrow> (Some ex, st)
              | Inr name \<Rightarrow> (None, record_call (BookmarkCall offset name) st))
           else (None, st))
        else (None, st)))))"

text \<open>
  The range-for of \<^verbatim>\<open>OnMessage\<close> over the events: the first exception ends it.
\<close>

fun OnSynthEvents :: "env \<Rightarrow> callbacks \<Rightarrow> json list \<Rightarrow> state \<Rightarrow> exn option \<times> state" where
  "OnSynthEvents env cbs [] st = (None, st)"
| "OnSynthEvents env cbs (event # events) st =
     (case OnSynthEvent env cbs event st of
        (Some ex, st') \<Rightarrow> (Some ex, st')
      | (None, st') \<Rightarrow> OnSynthEvents env cbs events st')"

subsection \<open>Inbound messages\<close>

datatype message = Binary bytes | Text bytes

definition OnMessage :: "env \<Rightarrow> callbacks \<Rightarrow> connection_hdl \<Rightarrow> message \<Rightarrow> state \<Rightarrow> exn option \<times> state" where
  "OnMessage env cbs hdl msg st =
     (if \<not> IsCurrentConnection st hdl then (None, st)
      else (case msg of
        Binary payload \<Rightarrow> (None, Mp3QueuePush payload st)
      | Text text \<Rightarrow>
          (case sv_find text ''Path:'' 0 of
             None \<Rightarrow> (None, st)
           | Some p \<Rightarrow>
               (let pathStartPos = p + 5 in
                case sv_find text (CRLF @ CRLF) pathStartPos of
                  None \<Rightarrow> (None, st)
                | Some pathEndPos \<Rightarrow>
                    (let path = take (pathEndPos - pathStartPos) (drop pathStartPos text) in
                     if path = ''audio.metadata'' then
                       (case json_parse env (drop (pathEndPos + 4) text) of
                          None \<Rightarrow> (Some JsonParseError, st)
                        | Some json \<Rightarrow>
                            (case json_at json ''Metadata'' of
                               Inl ex \<Rightarrow> (Some ex, st)
                             | Inr events \<Rightarrow> OnSynthEvents env cbs (json_elements events) st))
                     else if path = ''turn.end'' then
                       (case m_connection st of
                          None \<Rightarrow> (None, st)
                        | Some con \<Rightarrow>
                            (let st1 = record_call (CloseNormal con) st in
                             case close_raises env of
                               Some ex \<Rightarrow> (Some ex, st1)
                             | None \<Rightarrow> (None, Mp3QueueDone (st1\<lparr>m_connection := None\<rparr>))))
                     else (None, st))))))"

subsection \<open>The network thread\<close>

text \<open>
  \<^verbatim>\<open>AsioThread\<close>: \<^verbatim>\<open>m_client.run()\<close> calls the handler of each event; an exception
  that leaves a handler leaves \<^verbatim>\<open>run\<close>, is caught, passed to \<^verbatim>\<open>SpeakError\<close>, and the
  loop calls \<^verbatim>\<open>run\<close> again.
\<close>

datatype event =
    Opened connection_hdl
  | Received connection_hdl message
  | Closed connection_hdl
  | Failed connection_hdl nat

fun handler :: "env \<Rightarrow> callbacks \<Rightarrow> event \<Rightarrow> state \<Rightarrow> exn option \<times> state" where
  "handler env cbs (Opened hdl) st = OnOpen env cbs hdl st"
| "handler env cbs (Received hdl msg) st = OnMessage env cbs hdl msg st"
| "handler env cbs (Closed hdl) st = OnClose hdl st"
| "handler env cbs (Failed hdl ec) st = OnFail ec hdl st"

definition AsioThread :: "env \<Rightarrow> callbacks \<Rightarrow> event \<Rightarrow> state \<Rightarrow> state" where
  "AsioThread env cbs ev st =
     (case handler env cbs ev st of
        (None, st') \<Rightarrow> st'
      | (Some ex, st') \<Rightarrow> SpeakError ex st')"


subsection \<open>Producer and consumer together\<close>

text \<open>
  The queue's lock makes \<^verbatim>\<open>Mp3QueuePush\<close>, \<^verbatim>\<open>Mp3QueueDone\<close> and the locked section
  of the worker exclude one another, so a run of the pipeline is a sequence of these
  actions. \<open>None\<close> is a run with undefined behaviour.
\<close>

datatype action = Push bytes | QueueDone | Worker

fun pipeline :: "env \<Rightarrow> action list \<Rightarrow> state \<Rightarrow> state option" where
  "pipeline env [] st = Some st"
| "pipeline env (Push msg # acts) st = pipeline env acts (Mp3QueuePush msg st)"
| "pipeline env (QueueDone # acts) st = pipeline env acts (Mp3QueueDone st)"
| "pipeline env (Worker # acts) st =
     (case Mp3Thread_iteration env st of
        None \<Rightarrow> None
      | Some (w, st') \<Rightarrow> pipeline env acts st')"

text \<open>
  \<open>decoded st\<close> lists the chunks passed to \<^verbatim>\<open>Convert\<close> so far; \<open>audio_of msg\<close> is the
  part of a message after the first \<^verbatim>\<open>Path:audio\<close> line, when it has one; \<open>pushed\<close>
  are the messages a run enqueues.
\<close>

fun convert_arg :: "call \<Rightarrow> bytes option" where
  "convert_arg (Convert b) = Some b"
| "convert_arg _ = None"

definition decoded :: "state \<Rightarrow> bytes list" where
  "decoded st = List.map_filter convert_arg (calls st)"

definition audio_of :: "bytes \<Rightarrow> bytes option" where
  "audio_of msg =
     (case sv_find (drop 2 msg) audio_marker 0 of
        None \<Rightarrow> None
      | Some delimPos \<Rightarrow> Some (drop (delimPos + 12) (drop 2 msg)))"

fun pushed :: "action list \<Rightarrow> bytes list" where
  "pushed [] = []"
| "pushed (Push msg # acts) = msg # pushed acts"
| "pushed (a # acts) = pushed acts"

section \<open>Notions used to state the properties\<close>

text \<open>
  For the race of completion calls: \<open>setting\<close> counts a thread that is about to set the
  promise, \<open>race_inv\<close> is the invariant of the race (while the flag is clear nothing has
  been set and every thread is before its test; once it is set, exactly one thread has set
  the promise or is about to), \<open>from_triggers T\<close> says that threads and promise only
  carry outcomes of the calls \<open>T\<close>, and \<open>invoke\<close> is a whole call of
  \<^verbatim>\<open>SpeakComplete\<close> or \<^verbatim>\<open>SpeakError\<close>.
\<close>

fun setting :: "thread \<Rightarrow> nat" where
  "setting (Setting t) = 1"
| "setting _ = 0"

fun entered :: "thread \<Rightarrow> bool" where
  "entered (Entered t) = True"
| "entered _ = False"

definition race_inv :: "thread list \<times> state \<Rightarrow> bool" where
  "race_inv cfg \<longleftrightarrow>
     (case cfg of (ths, st) \<Rightarrow>
        if m_isPromiseSet st
        then length (m_speakPromise st) + sum_list (map setting ths) = 1
        else m_speakPromise st = [] \<and> list_all entered ths)"

fun invoke :: "trigger \<Rightarrow> state \<Rightarrow> state" where
  "invoke Complete st = SpeakComplete st"
| "invoke (Error ex) st = SpeakError ex st"

fun trigger_of :: "thread \<Rightarrow> trigger option" where
  "trigger_of (Entered t) = Some t"
| "trigger_of (Setting t) = Some t"
| "trigger_of Returned = None"

definition from_triggers :: "trigger set \<Rightarrow> thread list \<times> state \<Rightarrow> bool" where
  "from_triggers T cfg \<longleftrightarrow>
     (case cfg of (ths, st) \<Rightarrow>
        (\<forall>th\<in>set ths. \<forall>t. trigger_of th = Some t \<longrightarrow> t \<in> T)
        \<and> set (m_speakPromise st) \<subseteq> outcome_of ` T)"

text \<open>
  For examples: an object as its constructor leaves it (empty queue, no connection, promise
  not set), and an environment. The parser of this environment knows the empty object
  only; it agrees with \<^verbatim>\<open>nlohmann::json::parse\<close> on the two bodies the examples use,
  \<^verbatim>\<open>{}\<close> and \<^verbatim>\<open>{\<close>, which is not JSON. Its string conversion widens each byte,
  which is the UTF-8 decoding of ASCII text.
\<close>

definition constructed :: state where
  "constructed = \<lparr>m_ssml = [], m_lastWordPos = 0, m_lastSentencePos = 0, m_connection = None,
     m_speakPromise = [], m_isPromiseSet = False, m_mp3Queue = [], m_mp3QueueDone = False,
     m_isStopping = False, mp3Decoder = [], calls = []\<rparr>"

definition test_env :: env where
  "test_env = \<lparr>UTF8ToWString = wstr,
     json_parse = (\<lambda>s. if s = ''{}'' then Some (JObject []) else None),
     GetTimeStamp = (\<lambda>n. ''2024-01-01T00:00:00.000Z''),
     MakeRandomUuid = ''0123456789abcdef0123456789abcdef'',
     send_raises = (\<lambda>header b. None),
     close_raises = None,
     get_connection = Inr 1,
     Convert_raises = (\<lambda>fed chunk. None),
     args_left_to_right = True\<rparr>"

text \<open>
  \<open>cursors_le st st'\<close>: both cursors of \<open>st'\<close> are at least those of \<open>st\<close>.
\<close>

definition cursors_le :: "state \<Rightarrow> state \<Rightarrow> bool" where
  "cursors_le st st' \<longleftrightarrow>
     m_lastWordPos st \<le> m_lastWordPos st' \<and> m_lastSentencePos st \<le> m_lastSentencePos st'"

text \<open>
  \<open>json_path j keys\<close> follows a chain of \<^verbatim>\<open>at\<close> calls from \<open>j\<close>.
\<close>

fun json_path :: "json \<Rightarrow> string list \<Rightarrow> exn + json" where
  "json_path j [] = Inr j"
| "json_path j (key # keys) =
     (case json_at j key of Inl ex \<Rightarrow> Inl ex | Inr v \<Rightarrow> json_path v keys)"

text \<open>
  Concrete values for examples: a host that registered the word-boundary handler only, and
  a session started on a newly constructed object with the environment \<open>test_env\<close>.
\<close>

definition only_word_boundary :: callbacks where
  "only_word_boundary = \<lparr>VisemeCallback = False, PunctuationBoundaryCallback = False,
     WordBoundaryCallback = True, SentenceBoundaryCallback = False,
     SessionEndCallback = False, BookmarkCallback = False\<rparr>"

definition started :: state where
  "started = snd (SpeakAsync test_env (wstr ''<speak>word</speak>'') constructed)"

text \<open>
  \<open>audios msgs\<close> are the chunks that the messages \<open>msgs\<close> give the decoder, in order.
\<close>

definition audios :: "bytes list \<Rightarrow> bytes list" where
  "audios msgs = List.map_filter audio_of msgs"

text \<open>
  The states of a run in which the producer enqueues messages of at least two bytes and then
  marks the end, once, without a stop and without an exception of the decoder:
  \<open>issued\<close> tells whether \<^verbatim>\<open>Mp3QueueDone\<close> has been called. \<open>script_ok\<close> describes
  such runs.
\<close>

definition pipeline_inv :: "bool \<Rightarrow> state \<Rightarrow> bool" where
  "pipeline_inv issued st \<longleftrightarrow>
     \<not> m_isStopping st \<and> list_all (\<lambda>m. 2 \<le> length m) (m_mp3Queue st)
     \<and> (if issued
        then (m_mp3QueueDone st \<and> \<not> m_isPromiseSet st \<and> m_speakPromise st = [])
           \<or> (\<not> m_mp3QueueDone st \<and> m_mp3Queue st = [] \<and> m_isPromiseSet st
              \<and> m_speakPromise st = [Value])
        else \<not> m_mp3QueueDone st \<and> \<not> m_isPromiseSet st \<and> m_speakPromise st = [])"

fun script_ok :: "bool \<Rightarrow> action list \<Rightarrow> bool" where
  "script_ok issued [] = True"
| "script_ok issued (Worker # acts) = script_ok issued acts"
| "script_ok issued (Push m # acts) = (\<not> issued \<and> 2 \<le> length m \<and> script_ok issued acts)"
| "script_ok issued (QueueDone # acts) = (\<not> issued \<and> script_ok True acts)"

text \<open>
  A binary message as the service sends it: two bytes of header length, the header that
  ends with the \<^verbatim>\<open>Path:audio\<close> line, and the audio bytes. \<open>pending\<close> is a session with
  two such messages in the queue.
\<close>

definition audio_message :: "bytes \<Rightarrow> bytes" where
  "audio_message a = [CHR 0x00, CHR 0x0C] @ audio_marker @ a"

definition pending :: state where
  "pending = started\<lparr>m_mp3Queue := [audio_message ''p1'', audio_message ''p2'']\<rparr>"

text \<open>
  A body with one event that has a \<^verbatim>\<open>Type\<close> and nothing else, and an environment whose
  parser knows this body.
\<close>

definition metadata_body :: string where
  "metadata_body = ''{'' @ [CHR 0x22] @ ''Metadata'' @ [CHR 0x22] @ '':[{'' @ [CHR 0x22]
     @ ''Type'' @ [CHR 0x22] @ '':'' @ [CHR 0x22] @ ''SessionEnd'' @ [CHR 0x22] @ ''}]}''"

definition event_env :: env where
  "event_env = test_env\<lparr>json_parse :=
     (\<lambda>s. if s = metadata_body
          then Some (JObject [(''Metadata'', JArray [JObject [(''Type'', JString ''SessionEnd'')]])])
          else None)\<rparr>"

text \<open>
  An environment whose decoder raises on every chunk.
\<close>

definition raising_env :: env where
  "raising_env = test_env\<lparr>Convert_raises := (\<lambda>fed chunk. Some (DecoderError 1))\<rparr>"

section \<open>Properties of the string-view primitives and of the locator\<close>

lemma find_first_occurs:
  "find_first w s = Some i \<Longrightarrow> take (length w) (drop i s) = w"
proof (induction s arbitrary: i)
  case Nil
  then show ?case by (simp split: if_splits)
next
  case (Cons x xs)
  show ?case
  proof (cases "take (length w) (x # xs) = w")
    case True
    with Cons.prems show ?thesis by simp
  next
    case False
    with Cons.prems obtain j where "find_first w xs = Some j" "i = Suc j"
      by auto
    with Cons.IH show ?thesis by simp
  qed
qed

lemma sv_find_occurs:
  "sv_find s w p = Some i \<Longrightarrow> take (length w) (drop i s) = w"
  by (auto simp: sv_find_def add.commute split: if_splits dest!: find_first_occurs)

lemma sv_find_ch_nth:
  assumes "sv_find_ch s c p = Some i"
  shows "s ! i = c"
proof -
  from assms have "sv_find s [c] p = Some i"
    by (simp only: sv_find_ch_def)
  then have t: "take (length [c]) (drop i s) = [c]"
    by (rule sv_find_occurs)
  have "i < length s"
    using sv_find_ch_bound [OF assms] by simp
  then have "drop i s = s ! i # drop (Suc i) s"
    by (rule Cons_nth_drop_Suc [symmetric])
  with t show ?thesis
    by simp
qed

lemma find_first_least:
  "find_first w s = Some i \<Longrightarrow> j < i \<Longrightarrow> take (length w) (drop j s) \<noteq> w"
proof (induction s arbitrary: i j)
  case Nil
  then show ?case by (simp split: if_splits)
next
  case (Cons x xs)
  show ?case
  proof (cases "take (length w) (x # xs) = w")
    case True
    with Cons.prems show ?thesis by simp
  next
    case False
    with Cons.prems obtain k where k: "find_first w xs = Some k" "i = Suc k"
      by auto
    show ?thesis
    proof (cases j)
      case 0
      with False show ?thesis by simp
    next
      case (Suc j')
      with Cons.prems k have "j' < k" by simp
      with Cons.IH k Suc show ?thesis by simp
    qed
  qed
qed

lemma find_first_None:
  "find_first w s = None \<Longrightarrow> j \<le> length s \<Longrightarrow> take (length w) (drop j s) \<noteq> w"
proof (induction s arbitrary: j)
  case Nil
  then show ?case by (simp split: if_splits)
next
  case (Cons x xs)
  from Cons.prems(1) have h: "take (length w) (x # xs) \<noteq> w" "find_first w xs = None"
    by (simp_all split: if_splits)
  show ?case
  proof (cases j)
    case 0
    with h show ?thesis by simp
  next
    case (Suc j')
    with Cons.prems have "j' \<le> length xs" by simp
    from Cons.IH [OF h(2) this] Suc show ?thesis by simp
  qed
qed


lemma LT_neq_GT: "LT \<noteq> GT"
  by (simp add: LT_def GT_def wch_def)

lemma GT_neq_LT: "GT \<noteq> LT"
  by (simp add: LT_def GT_def wch_def)

lemma in_tag_append: "in_tag b (xs @ ys) = in_tag (in_tag b xs) ys"
  by (induction xs arbitrary: b) simp_all

lemma in_tag_no_LT: "LT \<notin> set xs \<Longrightarrow> in_tag False xs = False"
  by (induction xs) auto

lemma in_tag_no_GT: "GT \<notin> set xs \<Longrightarrow> in_tag True xs = True"
  by (induction xs) auto

lemma in_tag_GT: "in_tag b (GT # xs) = in_tag False xs"
  using GT_neq_LT by simp

lemma find_first_ch_None: "find_first [c] s = None \<Longrightarrow> c \<notin> set s"
proof (induction s)
  case Nil
  then show ?case by simp
next
  case (Cons x xs)
  then show ?case by (simp split: if_splits)
qed

lemma find_first_ch_Some:
  "find_first [c] s = Some k \<Longrightarrow> s = take k s @ c # drop (Suc k) s \<and> c \<notin> set (take k s)"
proof (induction s arbitrary: k)
  case Nil
  then show ?case by simp
next
  case (Cons x xs)
  show ?case
  proof (cases "x = c")
    case True
    with Cons.prems show ?thesis by simp
  next
    case False
    with Cons.prems obtain j where j: "find_first [c] xs = Some j" "k = Suc j"
      by auto
    from Cons.IH [OF j(1)] False j(2) show ?thesis by simp
  qed
qed

lemma sv_find_ch_None: "sv_find_ch s c p = None \<Longrightarrow> c \<notin> set (drop p s)"
  by (auto simp: sv_find_ch_def sv_find_def split: if_splits dest: find_first_ch_None)

lemma sv_find_ch_Some:
  assumes "sv_find_ch s c p = Some i"
  shows "drop p s = take (i - p) (drop p s) @ c # drop (Suc i) s"
    and "c \<notin> set (take (i - p) (drop p s))"
proof -
  from assms obtain k where k: "find_first [c] (drop p s) = Some k" "i = p + k"
    by (auto simp: sv_find_ch_def sv_find_def split: if_splits)
  from find_first_ch_Some [OF k(1)] k(2)
  show "drop p s = take (i - p) (drop p s) @ c # drop (Suc i) s"
    and "c \<notin> set (take (i - p) (drop p s))"
    by (simp_all add: add.commute)
qed

lemma tag_check_iff: "tag_check s = (\<not> in_tag False s)"
proof (induction s rule: tag_check.induct)
  case (1 b)
  show ?case
  proof (cases "sv_find_ch b LT 0")
    case None
    then have "LT \<notin> set b"
      using sv_find_ch_None [of b LT 0] by simp
    then have "in_tag False b = False"
      by (rule in_tag_no_LT)
    moreover from None have "tag_check b"
      by (subst tag_check.simps) simp
    ultimately show ?thesis by simp
  next
    case (Some ts)
    from sv_find_ch_Some [OF Some]
    have d: "b = take ts b @ LT # drop (Suc ts) b" and n: "LT \<notin> set (take ts b)"
      by simp_all
    have "in_tag False b = in_tag False (take ts b @ LT # drop (Suc ts) b)"
      using d by simp
    also have "\<dots> = in_tag True (drop (Suc ts) b)"
      by (simp add: in_tag_append in_tag_no_LT [OF n])
    finally have e: "in_tag False b = in_tag True (drop (Suc ts) b)" .
    show ?thesis
    proof (cases "sv_find_ch b GT (ts + 1)")
      case None
      then have "GT \<notin> set (drop (Suc ts) b)"
        using sv_find_ch_None [of b GT "ts + 1"] by simp
      then have "in_tag True (drop (Suc ts) b)"
        by (simp add: in_tag_no_GT)
      moreover from Some None have "\<not> tag_check b"
        by (subst tag_check.simps) simp
      ultimately show ?thesis using e by simp
    next
      case (Some te)
      note te = this
      from sv_find_ch_Some [OF te]
      have d2: "drop (Suc ts) b = take (te - Suc ts) (drop (Suc ts) b) @ GT # drop (Suc te) b"
        and n2: "GT \<notin> set (take (te - Suc ts) (drop (Suc ts) b))"
        by simp_all
      have "in_tag True (drop (Suc ts) b)
          = in_tag True (take (te - Suc ts) (drop (Suc ts) b) @ GT # drop (Suc te) b)"
        using d2 by simp
      also have "\<dots> = in_tag False (drop (Suc te) b)"
        by (simp add: in_tag_append in_tag_no_GT [OF n2])
      finally have e2: "in_tag True (drop (Suc ts) b) = in_tag False (drop (Suc te) b)" .
      from \<open>sv_find_ch b LT 0 = Some ts\<close> te
      have "tag_check b = tag_check (drop (te + 1) b)"
        by (subst tag_check.simps) simp
      also have "\<dots> = (\<not> in_tag False (drop (te + 1) b))"
        using "1.IH" [OF \<open>sv_find_ch b LT 0 = Some ts\<close> te] .
      finally show ?thesis using e e2 by simp
    qed
  qed
qed


lemma slice_split:
  assumes "a \<le> b" "b \<le> c"
  shows "take (c - a) (drop a xs) = take (b - a) (drop a xs) @ take (c - b) (drop b xs)"
proof -
  from assms have "c - a = (b - a) + (c - b)" by arith
  then have "take (c - a) (drop a xs) = take ((b - a) + (c - b)) (drop a xs)"
    by simp
  also have "\<dots> = take (b - a) (drop a xs) @ take (c - b) (drop (b - a) (drop a xs))"
    by (rule take_add)
  also from assms have "drop (b - a) (drop a xs) = drop b xs"
    by simp
  finally show ?thesis .
qed

lemma slice_Cons:
  assumes "g < p" "g < length xs"
  shows "take (p - g) (drop g xs) = xs ! g # take (p - Suc g) (drop (Suc g) xs)"
proof -
  from assms(2) have "drop g xs = xs ! g # drop (Suc g) xs"
    by (rule Cons_nth_drop_Suc [symmetric])
  moreover from assms(1) have "p - g = Suc (p - Suc g)" by arith
  ultimately show ?thesis by simp
qed

lemma in_tag_from_GT:
  assumes "c \<le> g" "g < p" "g < length ssml" "ssml ! g = GT"
  shows "in_tag False (take (p - c) (drop c ssml)) = in_tag False (take (p - g) (drop g ssml))"
proof -
  have "take (p - c) (drop c ssml) = take (g - c) (drop c ssml) @ take (p - g) (drop g ssml)"
    using assms(1,2) by (intro slice_split) simp_all
  moreover have "take (p - g) (drop g ssml) = GT # take (p - Suc g) (drop (Suc g) ssml)"
    using slice_Cons [OF assms(2,3)] assms(4) by simp
  ultimately show ?thesis
    by (simp add: in_tag_append GT_neq_LT)
qed

lemma sv_find_occurs_at:
  assumes "sv_find s w p = Some i"
  shows "occurs_at s w i"
  using sv_find_bound [OF assms] sv_find_occurs [OF assms] by (simp add: occurs_at_def)

lemma occurs_at_nth:
  assumes "occurs_at s w p" "w \<noteq> []"
  shows "s ! p \<in> set w"
proof -
  from assms obtain x xs where w: "w = x # xs" by (cases w) auto
  with assms(1) have "p < length s" "take (length w) (drop p s) = x # xs"
    by (simp_all add: occurs_at_def)
  moreover from this have "drop p s = s ! p # drop (Suc p) s"
    by (simp add: Cons_nth_drop_Suc)
  ultimately have "s ! p = x" using w by simp
  with w show ?thesis by simp
qed

lemma FindWord_loop_None:
  assumes "\<forall>p. c \<le> p \<and> occurs_at ssml w p \<longrightarrow> \<not> tag_check (take (p - c) (drop c ssml))"
    and "GT \<notin> set w"
    and "sp = c \<or> (c \<le> sp \<and> sp < length ssml \<and> ssml ! sp = GT)"
  shows "FindWord_loop ssml w sp = None"
  using assms
proof (induction ssml w sp rule: FindWord_loop.induct)
  case (1 ssml word startpos)
  note hyp = "1.prems"(1) and nogt = "1.prems"(2) and inv = "1.prems"(3)
  show ?case
  proof (cases "sv_find ssml word startpos")
    case None
    then show ?thesis by (subst FindWord_loop.simps) simp
  next
    case (Some wordPos)
    have le: "startpos \<le> wordPos" and bd: "wordPos + length word \<le> length ssml"
      using sv_find_bound [OF Some] by simp_all
    have occ: "occurs_at ssml word wordPos"
      using Some by (rule sv_find_occurs_at)
    from inv have cle: "c \<le> startpos" by auto
    with le have "c \<le> wordPos" by simp
    with hyp occ have nc: "in_tag False (take (wordPos - c) (drop c ssml))"
      by (simp add: tag_check_iff)
    have rej: "\<not> tag_check (take (wordPos - startpos) (drop startpos ssml))"
    proof (cases "startpos = c")
      case True
      with nc show ?thesis by (simp add: tag_check_iff)
    next
      case False
      with inv have g: "c \<le> startpos" "startpos < length ssml" "ssml ! startpos = GT"
        by simp_all
      have "startpos < wordPos"
      proof (rule ccontr)
        assume "\<not> startpos < wordPos"
        with le have eq: "wordPos = startpos" by simp
        show False
        proof (cases "word = []")
          case True
          with g(2) have "occurs_at ssml word (Suc startpos)"
            by (simp add: occurs_at_def)
          with hyp g(1) have "in_tag False (take (Suc startpos - c) (drop c ssml))"
            by (simp add: tag_check_iff)
          moreover have "take (Suc startpos - c) (drop c ssml)
              = take (startpos - c) (drop c ssml) @ take (Suc startpos - startpos) (drop startpos ssml)"
            using g(1) by (intro slice_split) simp_all
          moreover have "take (Suc startpos - startpos) (drop startpos ssml) = [GT]"
            using slice_Cons [of startpos "Suc startpos" ssml] g(2,3) by simp
          ultimately show False
            by (simp add: in_tag_append GT_neq_LT split: if_splits)
        next
          case False
          from occurs_at_nth [OF occ False] eq g(3) nogt show False by simp
        qed
      qed
      from in_tag_from_GT [OF g(1) this g(2,3)] nc show ?thesis
        by (simp add: tag_check_iff)
    qed
    show ?thesis
    proof (cases "sv_find_ch ssml GT (wordPos + length word)")
      case None
      with Some rej show ?thesis by (subst FindWord_loop.simps) simp
    next
      case (Some startpos')
      note sp' = this
      have "wordPos + length word \<le> startpos'" "startpos' < length ssml"
        using sv_find_ch_bound [OF sp'] by simp_all
      moreover have "ssml ! startpos' = GT"
        using sp' by (rule sv_find_ch_nth)
      ultimately have inv': "startpos' = c \<or> (c \<le> startpos' \<and> startpos' < length ssml \<and> ssml ! startpos' = GT)"
        using \<open>c \<le> wordPos\<close> by simp
      have "FindWord_loop ssml word startpos' = None"
        using "1.IH" [OF \<open>sv_find ssml word startpos = Some wordPos\<close> rej sp' hyp nogt inv'] .
      with \<open>sv_find ssml word startpos = Some wordPos\<close> rej sp' show ?thesis
        by (subst FindWord_loop.simps) simp
    qed
  qed
qed


lemma XmlEscape_no_GT: "GT \<notin> set (XmlEscape w)"
  by (induction w) (simp_all add: wstr_def GT_def wch_def)

lemma FindWord_loop_Some:
  "FindWord_loop ssml w sp = Some p \<Longrightarrow> sp \<le> p \<and> p + length w \<le> length ssml"
proof (induction ssml w sp rule: FindWord_loop.induct)
  case (1 ssml word startpos)
  from "1.prems" obtain wordPos where f: "sv_find ssml word startpos = Some wordPos"
    by (subst (asm) FindWord_loop.simps) (auto split: option.splits)
  note b = sv_find_bound [OF f]
  show ?case
  proof (cases "tag_check (take (wordPos - startpos) (drop startpos ssml))")
    case True
    with f "1.prems" have "p = wordPos"
      by (subst (asm) FindWord_loop.simps) simp
    with b show ?thesis by simp
  next
    case False
    with f "1.prems" obtain startpos' where
      g: "sv_find_ch ssml GT (wordPos + length word) = Some startpos'"
      and r: "FindWord_loop ssml word startpos' = Some p"
      by (subst (asm) FindWord_loop.simps) (auto split: option.splits)
    from "1.IH" [OF f False g r] restart_after_reject [OF f False g]
    show ?thesis by simp
  qed
qed

lemma FindWord_iterations_bound:
  "FindWord_iterations ssml w sp \<le> max 1 (length ssml - sp)"
proof (induction ssml w sp rule: FindWord_iterations.induct)
  case (1 ssml word startpos)
  show ?case
  proof (cases "sv_find ssml word startpos")
    case None
    then show ?thesis by (subst FindWord_iterations.simps) simp
  next
    case (Some wordPos)
    note f = this
    show ?thesis
    proof (cases "tag_check (take (wordPos - startpos) (drop startpos ssml))")
      case True
      with f show ?thesis by (subst FindWord_iterations.simps) simp
    next
      case False
      show ?thesis
      proof (cases "sv_find_ch ssml GT (wordPos + length word)")
        case None
        with f False show ?thesis by (subst FindWord_iterations.simps) simp
      next
        case (Some startpos')
        from "1.IH" [OF f False Some]
        have "FindWord_iterations ssml word startpos' \<le> max 1 (length ssml - startpos')" .
        moreover from restart_after_reject [OF f False Some]
        have "startpos < startpos'" "startpos' < length ssml" by simp_all
        moreover from f False Some
        have "FindWord_iterations ssml word startpos
            = 1 + FindWord_iterations ssml word startpos'"
          by (subst FindWord_iterations.simps) simp
        ultimately show ?thesis by arith
      qed
    qed
  qed
qed

lemma FindWord_loop_None_all:
  assumes "\<forall>p\<in>set [lastPos..<Suc (length ssml)]. occurs_at ssml w p
             \<longrightarrow> \<not> tag_check (take (p - lastPos) (drop lastPos ssml))"
    and "GT \<notin> set w"
  shows "FindWord_loop ssml w lastPos = None"
proof (rule FindWord_loop_None [where c = lastPos])
  show "\<forall>p. lastPos \<le> p \<and> occurs_at ssml w p
          \<longrightarrow> \<not> tag_check (take (p - lastPos) (drop lastPos ssml))"
  proof (intro allI impI)
    fix p
    assume h: "lastPos \<le> p \<and> occurs_at ssml w p"
    then have "p \<le> length ssml" by (simp add: occurs_at_def)
    with h have "p \<in> set [lastPos..<Suc (length ssml)]" by auto
    with assms(1) h show "\<not> tag_check (take (p - lastPos) (drop lastPos ssml))"
      by blast
  qed
  show "GT \<notin> set w" by (rule assms(2))
  show "lastPos = lastPos \<or> (lastPos \<le> lastPos \<and> lastPos < length ssml \<and> ssml ! lastPos = GT)"
    by simp
qed

text \<open>
  Claim C6. When no occurrence of the escaped word at or after the cursor clears the tag
  check (the scan of the text between the cursor and the occurrence ends inside a tag),
  and in particular when the word does not occur at all, \<^verbatim>\<open>FindWord\<close> returns
  \<^verbatim>\<open>npos\<close> and leaves the cursor as it was.
\<close>

theorem C6_not_found_keeps_cursor:
  assumes "\<forall>p\<in>set [lastPos..<Suc (length ssml)].
             occurs_at ssml (XmlEscape (U utf8Word)) p
             \<longrightarrow> \<not> tag_check (take (p - lastPos) (drop lastPos ssml))"
  shows "FindWord U ssml utf8Word lastPos = (None, lastPos)"
proof -
  have "FindWord_loop ssml (XmlEscape (U utf8Word)) lastPos = None"
    using assms XmlEscape_no_GT by (rule FindWord_loop_None_all)
  then show ?thesis
    by (simp add: FindWord_def)
qed

text \<open>
  In \<^verbatim>\<open><a word>\<close> the only occurrence of \<^verbatim>\<open>word\<close> is inside the tag.
\<close>

theorem C6_not_found_keeps_cursor_witness:
  "FindWord wstr (wstr ''<a word>'') ''word'' 0 = (None, 0)"
proof -
  have h: "\<forall>p\<in>set [0..<Suc (length (wstr ''<a word>''))].
      occurs_at (wstr ''<a word>'') (XmlEscape (wstr ''word'')) p
      \<longrightarrow> \<not> tag_check (take (p - 0) (drop 0 (wstr ''<a word>'')))"
    by code_simp
  from C6_not_found_keeps_cursor [of 0 "wstr ''<a word>''" wstr "''word''", OF h]
  show ?thesis .
qed

text \<open>
  Claim C2 expects offset 14 for \<^verbatim>\<open>word\<close> in \<^verbatim>\<open>A <b>word</b> word end\<close> from
  cursor 0. The occurrence at offset 5 follows the complete tag \<^verbatim>\<open><b>\<close>, so no
  \<^verbatim>\<open><\<close> before it is unmatched, and the code returns 5.
\<close>

theorem C2_locate_counterexample:
  "fst (FindWord wstr (wstr ''A <b>word</b> word end'') ''word'' 0) = Some 5
   \<and> fst (FindWord wstr (wstr ''A <b>word</b> word end'') ''word'' 0) \<noteq> Some 14"
  by code_simp

lemma sv_find_least:
  assumes "sv_find s w p = Some i" and "p \<le> j" and "j < i"
  shows "\<not> occurs_at s w j"
proof -
  from assms(1) obtain k where k: "find_first w (drop p s) = Some k" "i = p + k"
    by (auto simp: sv_find_def split: if_splits)
  from assms(2,3) k(2) have "j - p < k" by arith
  from find_first_least [OF k(1) this] assms(2)
  have "take (length w) (drop j s) \<noteq> w" by simp
  then show ?thesis by (simp add: occurs_at_def)
qed

lemma sv_find_Nil:
  assumes "sv_find s [] p = Some i"
  shows "i = p"
proof -
  have "find_first [] (drop p s) = Some 0"
    by (cases "drop p s") simp_all
  with assms show ?thesis
    by (simp add: sv_find_def split: if_splits)
qed

lemma in_tag_stays_inside:
  assumes "c \<le> a" and "a \<le> q"
    and "in_tag False (take (a - c) (drop c ssml))"
    and "GT \<notin> set (take (q - a) (drop a ssml))"
  shows "in_tag False (take (q - c) (drop c ssml))"
proof -
  have "take (q - c) (drop c ssml) = take (a - c) (drop c ssml) @ take (q - a) (drop a ssml)"
    using assms(1,2) by (rule slice_split)
  with assms(3) in_tag_no_GT [OF assms(4)] show ?thesis
    by (simp add: in_tag_append)
qed

lemma no_GT_up_to_restart:
  assumes occ: "occurs_at ssml w wordPos" and nogt: "GT \<notin> set w"
    and g: "sv_find_ch ssml GT (wordPos + length w) = Some sp'"
    and q: "q \<le> sp'"
  shows "GT \<notin> set (take (q - wordPos) (drop wordPos ssml))"
proof (cases "q \<le> wordPos + length w")
  case True
  then have "take (q - wordPos) (drop wordPos ssml)
      = take (q - wordPos) (take (length w) (drop wordPos ssml))"
    by (simp add: min_def)
  also have "\<dots> = take (q - wordPos) w"
    using occ by (simp add: occurs_at_def)
  finally have "set (take (q - wordPos) (drop wordPos ssml)) \<subseteq> set w"
    by (simp add: set_take_subset)
  with nogt show ?thesis by blast
next
  case False
  let ?e = "wordPos + length w"
  from False have le: "wordPos \<le> ?e" "?e \<le> q" by simp_all
  have "take (q - wordPos) (drop wordPos ssml)
      = take (?e - wordPos) (drop wordPos ssml) @ take (q - ?e) (drop ?e ssml)"
    using le by (rule slice_split)
  moreover have "take (?e - wordPos) (drop wordPos ssml) = w"
    using occ by (simp add: occurs_at_def)
  moreover have "set (take (q - ?e) (drop ?e ssml)) \<subseteq> set (take (sp' - ?e) (drop ?e ssml))"
  proof -
    from q have "take (q - ?e) (drop ?e ssml) = take (q - ?e) (take (sp' - ?e) (drop ?e ssml))"
      by (simp add: min_def)
    then show ?thesis by (metis set_take_subset)
  qed
  moreover have "GT \<notin> set (take (sp' - ?e) (drop ?e ssml))"
    using sv_find_ch_Some(2) [OF g] .
  ultimately show ?thesis using nogt by auto
qed

lemma FindWord_loop_first:
  assumes "FindWord_loop ssml w sp = Some p"
    and "GT \<notin> set w"
    and "sp = c \<or> (c \<le> sp \<and> sp < length ssml \<and> ssml ! sp = GT \<and> w \<noteq> [])"
    and "\<forall>q. c \<le> q \<and> q < sp \<and> occurs_at ssml w q
           \<longrightarrow> in_tag False (take (q - c) (drop c ssml))"
  shows "occurs_at ssml w p \<and> \<not> in_tag False (take (p - c) (drop c ssml))
     \<and> (\<forall>q. c \<le> q \<and> q < p \<and> occurs_at ssml w q
           \<longrightarrow> in_tag False (take (q - c) (drop c ssml)))"
  using assms
proof (induction ssml w sp rule: FindWord_loop.induct)
  case (1 ssml word startpos)
  note res = "1.prems"(1) and nogt = "1.prems"(2) and inv = "1.prems"(3) and before = "1.prems"(4)
  from res obtain wordPos where f: "sv_find ssml word startpos = Some wordPos"
    by (subst (asm) FindWord_loop.simps) (auto split: option.splits)
  have le: "startpos \<le> wordPos" and bd: "wordPos + length word \<le> length ssml"
    using sv_find_bound [OF f] by simp_all
  have occ: "occurs_at ssml word wordPos"
    using f by (rule sv_find_occurs_at)
  from inv have cle: "c \<le> startpos" by auto
  with le have cw: "c \<le> wordPos" by simp
  have later: "startpos < wordPos" if "startpos \<noteq> c"
  proof -
    from that inv have g: "ssml ! startpos = GT" and ne: "word \<noteq> []" by simp_all
    from occurs_at_nth [OF occ ne] nogt have "ssml ! wordPos \<noteq> GT" by auto
    with g have "wordPos \<noteq> startpos" by auto
    with le show ?thesis by simp
  qed
  have same: "in_tag False (take (wordPos - c) (drop c ssml))
      = in_tag False (take (wordPos - startpos) (drop startpos ssml))"
  proof (cases "startpos = c")
    case True
    then show ?thesis by simp
  next
    case False
    with inv have g: "c \<le> startpos" "startpos < length ssml" "ssml ! startpos = GT"
      by simp_all
    from in_tag_from_GT [OF g(1) later [OF False] g(2,3)] show ?thesis .
  qed
  have upto: "in_tag False (take (q - c) (drop c ssml))"
    if "c \<le> q" "q < wordPos" "occurs_at ssml word q" for q
  proof (cases "q < startpos")
    case True
    with before that show ?thesis by blast
  next
    case False
    then have "startpos \<le> q" by simp
    from sv_find_least [OF f this that(2)] that(3) show ?thesis by blast
  qed
  show ?case
  proof (cases "tag_check (take (wordPos - startpos) (drop startpos ssml))")
    case True
    with f res have "p = wordPos"
      by (subst (asm) FindWord_loop.simps) simp
    moreover from True same have "\<not> in_tag False (take (wordPos - c) (drop c ssml))"
      by (simp add: tag_check_iff)
    ultimately show ?thesis using occ upto by blast
  next
    case False
    with f res obtain startpos' where
      g: "sv_find_ch ssml GT (wordPos + length word) = Some startpos'"
      and r: "FindWord_loop ssml word startpos' = Some p"
      by (subst (asm) FindWord_loop.simps) (auto split: option.splits)
    from False same have inside: "in_tag False (take (wordPos - c) (drop c ssml))"
      by (simp add: tag_check_iff)
    have gb: "wordPos + length word \<le> startpos'" "startpos' < length ssml"
      using sv_find_ch_bound [OF g] by simp_all
    have gt: "ssml ! startpos' = GT"
      using g by (rule sv_find_ch_nth)
    have ne: "word \<noteq> []"
    proof
      assume "word = []"
      with f have "wordPos = startpos" by (simp add: sv_find_Nil)
      with False show False by (simp add: tag_check_Nil)
    qed
    from cw gb gt ne have inv': "startpos' = c
        \<or> (c \<le> startpos' \<and> startpos' < length ssml \<and> ssml ! startpos' = GT \<and> word \<noteq> [])"
      by simp
    have before': "\<forall>q. c \<le> q \<and> q < startpos' \<and> occurs_at ssml word q
           \<longrightarrow> in_tag False (take (q - c) (drop c ssml))"
    proof (intro allI impI)
      fix q
      assume h: "c \<le> q \<and> q < startpos' \<and> occurs_at ssml word q"
      show "in_tag False (take (q - c) (drop c ssml))"
      proof (cases "q < wordPos")
        case True
        with h upto show ?thesis by blast
      next
        case nl: False
        then have wq: "wordPos \<le> q" by simp
        from h have "q \<le> startpos'" by simp
        from no_GT_up_to_restart [OF occ nogt g this]
        have "GT \<notin> set (take (q - wordPos) (drop wordPos ssml))" .
        from in_tag_stays_inside [OF cw wq inside this] show ?thesis .
      qed
    qed
    from "1.IH" [OF f False g r nogt inv' before'] show ?thesis .
  qed
qed

lemma FindWord_Some:
  assumes "FindWord U ssml utf8Word lastPos = (Some p, lastPos')"
  shows "FindWord_loop ssml (XmlEscape (U utf8Word)) lastPos = Some p
     \<and> lastPos' = p + length (XmlEscape (U utf8Word))"
  using assms by (auto simp: FindWord_def Let_def split: option.splits)

text \<open>
  Claim C2, as the code has it. For \<^verbatim>\<open>A <b>word</b> word end\<close> and cursor 0 the
  result is offset 5, the occurrence between \<^verbatim>\<open><b>\<close> and \<^verbatim>\<open></b>\<close>, and the cursor
  becomes 9; the next call, from cursor 9, returns offset 14. In general, when
  \<^verbatim>\<open>FindWord\<close> finds the word, its result is an occurrence of the escaped word at or
  after the cursor before which the scan from the cursor ends outside a tag, the cursor
  becomes the end of that occurrence, and every occurrence between the cursor and the
  result is one before which the scan ends inside a tag. For
  \<^verbatim>\<open>A <b word>x</b> word end\<close> the result is offset 16.
\<close>

theorem C2_locate_outside_tags:
  "(FindWord U ssml utf8Word lastPos = (Some p, lastPos') \<longrightarrow>
      lastPos \<le> p \<and> lastPos' = p + length (XmlEscape (U utf8Word))
      \<and> occurs_at ssml (XmlEscape (U utf8Word)) p
      \<and> \<not> in_tag False (take (p - lastPos) (drop lastPos ssml))
      \<and> (\<forall>q. lastPos \<le> q \<and> q < p \<and> occurs_at ssml (XmlEscape (U utf8Word)) q
            \<longrightarrow> in_tag False (take (q - lastPos) (drop lastPos ssml))))
   \<and> FindWord wstr (wstr ''A <b>word</b> word end'') ''word'' 0 = (Some 5, 9)
   \<and> FindWord wstr (wstr ''A <b>word</b> word end'') ''word'' 9 = (Some 14, 18)
   \<and> FindWord wstr (wstr ''A <b word>x</b> word end'') ''word'' 0 = (Some 16, 20)"
proof (intro conjI impI)
  assume h: "FindWord U ssml utf8Word lastPos = (Some p, lastPos')"
  let ?w = "XmlEscape (U utf8Word)"
  from FindWord_Some [OF h] have l: "FindWord_loop ssml ?w lastPos = Some p"
    and c: "lastPos' = p + length ?w"
    by simp_all
  have inv: "lastPos = lastPos
      \<or> (lastPos \<le> lastPos \<and> lastPos < length ssml \<and> ssml ! lastPos = GT \<and> ?w \<noteq> [])"
    by simp
  have before: "\<forall>q. lastPos \<le> q \<and> q < lastPos \<and> occurs_at ssml ?w q
      \<longrightarrow> in_tag False (take (q - lastPos) (drop lastPos ssml))"
    by simp
  note r = FindWord_loop_first [OF l XmlEscape_no_GT inv before]
  from FindWord_loop_Some [OF l] show "lastPos \<le> p" by simp
  from c show "lastPos' = p + length ?w" .
  from r show "occurs_at ssml ?w p" by blast
  from r show "\<not> in_tag False (take (p - lastPos) (drop lastPos ssml))" by blast
  from r show "\<forall>q. lastPos \<le> q \<and> q < p \<and> occurs_at ssml ?w q
            \<longrightarrow> in_tag False (take (q - lastPos) (drop lastPos ssml))"
    by blast
next
  show "FindWord wstr (wstr ''A <b>word</b> word end'') ''word'' 0 = (Some 5, 9)"
    by code_simp
  show "FindWord wstr (wstr ''A <b>word</b> word end'') ''word'' 9 = (Some 14, 18)"
    by code_simp
  show "FindWord wstr (wstr ''A <b word>x</b> word end'') ''word'' 0 = (Some 16, 20)"
    by code_simp
qed

text \<open>
  In \<^verbatim>\<open>A <b word>x</b> word end\<close> the occurrence at offset 5 is inside the tag and is
  passed over; the one at offset 16 is outside.
\<close>

theorem C2_locate_outside_tags_witness:
  "FindWord wstr (wstr ''A <b word>x</b> word end'') ''word'' 0 = (Some 16, 20)
   \<and> occurs_at (wstr ''A <b word>x</b> word end'') (XmlEscape (wstr ''word'')) 5
   \<and> in_tag False (take (5 - 0) (drop 0 (wstr ''A <b word>x</b> word end'')))
   \<and> occurs_at (wstr ''A <b word>x</b> word end'') (XmlEscape (wstr ''word'')) 16
   \<and> \<not> in_tag False (take (16 - 0) (drop 0 (wstr ''A <b word>x</b> word end'')))"
proof -
  let ?m = "wstr ''A <b word>x</b> word end''"
  have h: "FindWord wstr ?m ''word'' 0 = (Some 16, 20)"
    by code_simp
  have o: "occurs_at ?m (XmlEscape (wstr ''word'')) 5"
    by code_simp
  note t = C2_locate_outside_tags [of wstr ?m "''word''" 0 16 20]
  from t h have a: "occurs_at ?m (XmlEscape (wstr ''word'')) 16"
    and b: "\<not> in_tag False (take (16 - 0) (drop 0 ?m))"
    and c: "\<forall>q. 0 \<le> q \<and> q < 16 \<and> occurs_at ?m (XmlEscape (wstr ''word'')) q
            \<longrightarrow> in_tag False (take (q - 0) (drop 0 ?m))"
    by blast+
  from c o have d: "in_tag False (take (5 - 0) (drop 0 ?m))"
    by simp
  from h o d a b show ?thesis by blast
qed

lemma FindWord_mono: "lastPos \<le> snd (FindWord U ssml w lastPos)"
proof (cases "FindWord_loop ssml (XmlEscape (U w)) lastPos")
  case None
  then show ?thesis by (simp add: FindWord_def)
next
  case (Some p)
  from FindWord_loop_Some [OF Some] Some show ?thesis
    by (simp add: FindWord_def)
qed

lemma cursors_le_refl: "cursors_le st st"
  by (simp add: cursors_le_def)

lemma cursors_le_record_call: "cursors_le st st' \<Longrightarrow> cursors_le st (record_call c st')"
  by (simp add: cursors_le_def record_call_def)

lemma cursors_le_FindWord_member: "cursors_le st (snd (FindWord_member env cur w st))"
proof -
  obtain r lp where f: "FindWord (UTF8ToWString env) (m_ssml st) w (cursor_value cur st) = (r, lp)"
    by (cases "FindWord (UTF8ToWString env) (m_ssml st) w (cursor_value cur st)")
  from FindWord_mono [of "cursor_value cur st" "UTF8ToWString env" "m_ssml st" w] f
  have "cursor_value cur st \<le> lp" by simp
  with f show ?thesis
    by (cases cur) (simp_all add: FindWord_member_def cursors_le_def)
qed

lemma cursors_le_FindWord_member':
  "FindWord_member env cur w st = (r, st') \<Longrightarrow> cursors_le st st'"
  using cursors_le_FindWord_member [of st env cur w] by simp

lemma cursors_le_boundary_args: "cursors_le st (snd (boundary_args env cur info st))"
  by (auto simp: boundary_args_def cursors_le_refl split: sum.splits prod.splits
      dest: cursors_le_FindWord_member')

lemma cursors_le_boundary_args':
  "boundary_args env cur info st = (r, st') \<Longrightarrow> cursors_le st st'"
  using cursors_le_boundary_args [of st env cur info] by simp

lemma cursors_le_boundary_callback:
  "cursors_le st (snd (boundary_callback env cb cur offset info st))"
  by (auto simp: boundary_callback_def cursors_le_record_call split: sum.splits prod.splits
      dest: cursors_le_boundary_args')

lemma cursors_le_OnSynthEvent: "cursors_le st (snd (OnSynthEvent env cbs metadata st))"
  by (simp add: OnSynthEvent_def Let_def cursors_le_refl cursors_le_record_call
      cursors_le_boundary_callback split: sum.splits)

lemma cursors_le_trans: "cursors_le a b \<Longrightarrow> cursors_le b c \<Longrightarrow> cursors_le a c"
  by (simp add: cursors_le_def)

lemma cursors_le_OnSynthEvents: "cursors_le st (snd (OnSynthEvents env cbs events st))"
proof (induction events arbitrary: st)
  case Nil
  show ?case by (simp add: cursors_le_refl)
next
  case (Cons event events)
  obtain r st' where e: "OnSynthEvent env cbs event st = (r, st')"
    by (cases "OnSynthEvent env cbs event st")
  with cursors_le_OnSynthEvent [of st env cbs event] have le: "cursors_le st st'"
    by simp
  show ?case
  proof (cases r)
    case None
    with e have "OnSynthEvents env cbs (event # events) st = OnSynthEvents env cbs events st'"
      by simp
    with cursors_le_trans [OF le Cons.IH [of st']] show ?thesis by simp
  next
    case (Some ex)
    with e le show ?thesis by simp
  qed
qed

lemma cursors_le_same:
  "m_lastWordPos st' = m_lastWordPos st \<Longrightarrow> m_lastSentencePos st' = m_lastSentencePos st
    \<Longrightarrow> cursors_le st st'"
  by (simp add: cursors_le_def)

lemma cursors_le_OnMessage: "cursors_le st (snd (OnMessage env cbs hdl msg st))"
  by (auto simp: OnMessage_def Let_def cursors_le_refl cursors_le_OnSynthEvents
      Mp3QueuePush_def Mp3QueueDone_def record_call_def
      intro!: cursors_le_same split: message.splits option.splits sum.splits)

lemma cursors_le_OnOpen: "cursors_le st (snd (OnOpen env cbs hdl st))"
  by (auto simp: OnOpen_def Let_def send_def record_call_def cursors_le_refl
      intro!: cursors_le_same split: option.splits)

lemma cursors_le_OnClose: "cursors_le st (snd (OnClose hdl st))"
  by (auto simp: OnClose_def Mp3QueueDone_def cursors_le_refl intro!: cursors_le_same)

lemma cursors_le_SpeakError: "cursors_le st st' \<Longrightarrow> cursors_le st (SpeakError ex st')"
  by (simp add: cursors_le_def SpeakError_def test_and_set_def promise_set_def)

lemma cursors_le_OnFail: "cursors_le st (snd (OnFail ec hdl st))"
  by (auto simp: OnFail_def Let_def Mp3QueueDone_def cursors_le_refl
      intro!: cursors_le_same cursors_le_SpeakError)

lemma cursors_le_handler: "cursors_le st (snd (handler env cbs ev st))"
  by (cases ev)
    (simp_all add: cursors_le_OnOpen cursors_le_OnMessage cursors_le_OnClose cursors_le_OnFail)

lemma cursors_le_AsioThread: "cursors_le st (AsioThread env cbs ev st)"
proof -
  obtain r st' where h: "handler env cbs ev st = (r, st')"
    by (cases "handler env cbs ev st")
  with cursors_le_handler [of st env cbs ev] have "cursors_le st st'" by simp
  with h show ?thesis
    by (cases r) (simp_all add: AsioThread_def cursors_le_SpeakError)
qed

text \<open>
  Claim C7. Neither cursor moves backward: a call of \<^verbatim>\<open>FindWord\<close> returns a cursor
  that is at least the one it was given, whether it finds the word or not, and the
  dispatch of a boundary event, like the handling of any event of the network thread,
  leaves both \<open>m_lastWordPos\<close> and \<open>m_lastSentencePos\<close> at least where they were.
\<close>

theorem C7_cursors_monotone:
  "lastPos \<le> snd (FindWord U ssml w lastPos)
   \<and> cursors_le st (snd (OnSynthEvent env cbs metadata st))
   \<and> cursors_le st (AsioThread env cbs ev st)"
  by (simp add: FindWord_mono cursors_le_OnSynthEvent cursors_le_AsioThread)

text \<open>
  Claim C10 bounds the iterations of the candidate loop by the length of the markup. For
  an empty markup and an empty word the body runs once: the empty word is found at
  offset 0 and accepted. The last conjunct shows where the search restarts after a
  rejected candidate: at the \<^verbatim>\<open>>\<close> itself (offset 7 of \<^verbatim>\<open><a word> word\<close>).
\<close>

theorem C10_iterations_counterexample:
  "FindWord_iterations (wstr []) (XmlEscape (wstr [])) 0 = 1
   \<and> \<not> FindWord_iterations (wstr []) (XmlEscape (wstr [])) 0 \<le> length (wstr [])
   \<and> sv_find_ch (wstr ''<a word> word'') GT (3 + length (wstr ''word'')) = Some 7"
  by code_simp

text \<open>
  Claim C10, as the code has it. \<open>FindWord_loop\<close> is total (its termination is proved with
  the measure \<open>length ssml - startpos\<close>). When a candidate is rejected and a \<^verbatim>\<open>>\<close> is
  found at or after its end, the search restarts at that \<^verbatim>\<open>>\<close>, which lies strictly
  after the previous start; when none is found the result is \<^verbatim>\<open>npos\<close>. The body of
  the loop runs at most \<open>max 1 (length ssml)\<close> times: at most as often as the markup is
  long, and at most once for an empty markup.
\<close>

theorem C10_locate_terminates:
  "(sv_find ssml word startpos = Some wordPos
      \<and> \<not> tag_check (take (wordPos - startpos) (drop startpos ssml))
      \<and> sv_find_ch ssml GT (wordPos + length word) = Some startpos'
    \<longrightarrow> startpos < startpos' \<and> wordPos + length word \<le> startpos'
        \<and> startpos' < length ssml \<and> ssml ! startpos' = GT)
   \<and> (sv_find ssml word startpos = Some wordPos
      \<and> \<not> tag_check (take (wordPos - startpos) (drop startpos ssml))
      \<and> sv_find_ch ssml GT (wordPos + length word) = None
    \<longrightarrow> FindWord_loop ssml word startpos = None)
   \<and> FindWord_iterations ssml word startpos \<le> max 1 (length ssml)"
proof (intro conjI impI)
  assume h: "sv_find ssml word startpos = Some wordPos
      \<and> \<not> tag_check (take (wordPos - startpos) (drop startpos ssml))
      \<and> sv_find_ch ssml GT (wordPos + length word) = Some startpos'"
  then have f: "sv_find ssml word startpos = Some wordPos"
    and t: "\<not> tag_check (take (wordPos - startpos) (drop startpos ssml))"
    and g: "sv_find_ch ssml GT (wordPos + length word) = Some startpos'"
    by simp_all
  from restart_after_reject [OF f t g]
  show "startpos < startpos'" and "startpos' < length ssml" by simp_all
  from sv_find_ch_bound [OF g] show "wordPos + length word \<le> startpos'" by simp
  from g show "ssml ! startpos' = GT" by (rule sv_find_ch_nth)
next
  assume "sv_find ssml word startpos = Some wordPos
      \<and> \<not> tag_check (take (wordPos - startpos) (drop startpos ssml))
      \<and> sv_find_ch ssml GT (wordPos + length word) = None"
  then show "FindWord_loop ssml word startpos = None"
    by (subst FindWord_loop.simps) simp
next
  have "FindWord_iterations ssml word startpos \<le> max 1 (length ssml - startpos)"
    by (rule FindWord_iterations_bound)
  then show "FindWord_iterations ssml word startpos \<le> max 1 (length ssml)"
    by arith
qed

text \<open>
  A rejected candidate with a later \<^verbatim>\<open>>\<close>, and one without.
\<close>

theorem C10_locate_terminates_witness:
  "sv_find (wstr ''<a word> word'') (wstr ''word'') 0 = Some 3
   \<and> \<not> tag_check (take (3 - 0) (drop 0 (wstr ''<a word> word'')))
   \<and> sv_find_ch (wstr ''<a word> word'') GT (3 + length (wstr ''word'')) = Some 7
   \<and> (0::nat) < 7 \<and> wstr ''<a word> word'' ! 7 = GT
   \<and> sv_find (wstr ''<a word'') (wstr ''word'') 0 = Some 3
   \<and> \<not> tag_check (take (3 - 0) (drop 0 (wstr ''<a word'')))
   \<and> sv_find_ch (wstr ''<a word'') GT (3 + length (wstr ''word'')) = None
   \<and> FindWord_loop (wstr ''<a word'') (wstr ''word'') 0 = None"
proof -
  have a: "sv_find (wstr ''<a word> word'') (wstr ''word'') 0 = Some 3
      \<and> \<not> tag_check (take (3 - 0) (drop 0 (wstr ''<a word> word'')))
      \<and> sv_find_ch (wstr ''<a word> word'') GT (3 + length (wstr ''word'')) = Some 7"
    by code_simp
  have b: "sv_find (wstr ''<a word'') (wstr ''word'') 0 = Some 3
      \<and> \<not> tag_check (take (3 - 0) (drop 0 (wstr ''<a word'')))
      \<and> sv_find_ch (wstr ''<a word'') GT (3 + length (wstr ''word'')) = None"
    by code_simp
  from C10_locate_terminates [of "wstr ''<a word> word''" "wstr ''word''" 0 3 7] a
  have "(0::nat) < 7 \<and> wstr ''<a word> word'' ! 7 = GT" by blast
  moreover from C10_locate_terminates [of "wstr ''<a word''" "wstr ''word''" 0 3] b
  have "FindWord_loop (wstr ''<a word'') (wstr ''word'') 0 = None" by blast
  ultimately show ?thesis using a b by blast
qed

section \<open>Completion is resolved once\<close>

lemma sum_setting_entered: "list_all entered ths \<Longrightarrow> sum_list (map setting ths) = 0"
proof (induction ths)
  case Nil
  show ?case by simp
next
  case (Cons th ths)
  then show ?case by (cases th) simp_all
qed

lemma sum_setting_update:
  assumes "i < length ths"
  shows "sum_list (map setting (ths[i := th])) + setting (ths ! i)
       = sum_list (map setting ths) + setting th"
proof -
  have "sum_list (map setting (ths[i := th])) = sum_list ((map setting ths)[i := setting th])"
    by (simp add: map_update)
  also have "\<dots> = sum_list (map setting ths) + setting th - (map setting ths) ! i"
    using assms by (simp add: sum_list_update)
  finally have "sum_list (map setting (ths[i := th]))
      = sum_list (map setting ths) + setting th - setting (ths ! i)"
    using assms by simp
  moreover have "setting (ths ! i) \<le> sum_list (map setting ths)"
    using assms by (simp add: member_le_sum_list)
  ultimately show ?thesis by arith
qed

lemma race_inv_step:
  assumes inv: "race_inv (ths, st)" and i: "i < length ths"
    and step: "thread_step (ths ! i) st = (th', st')"
  shows "race_inv (ths[i := th'], st')"
proof (cases "ths ! i")
  case (Entered t)
  show ?thesis
  proof (cases "m_isPromiseSet st")
    case True
    with Entered step have e: "th' = Returned" "st' = st\<lparr>m_isPromiseSet := True\<rparr>"
      by (simp_all add: test_and_set_def)
    from sum_setting_update [OF i, of Returned] Entered
    have "sum_list (map setting (ths[i := Returned])) = sum_list (map setting ths)"
      by simp
    with inv True e show ?thesis by (simp add: race_inv_def)
  next
    case False
    with Entered step have e: "th' = Setting t" "st' = st\<lparr>m_isPromiseSet := True\<rparr>"
      by (simp_all add: test_and_set_def)
    from inv False have p: "m_speakPromise st = []" and a: "list_all entered ths"
      by (simp_all add: race_inv_def)
    from sum_setting_update [OF i, of "Setting t"] Entered sum_setting_entered [OF a]
    have "sum_list (map setting (ths[i := Setting t])) = 1"
      by simp
    with p e show ?thesis by (simp add: race_inv_def)
  qed
next
  case (Setting t)
  with step have e: "th' = Returned" "st' = promise_set (outcome_of t) st"
    by simp_all
  have flag: "m_isPromiseSet st"
  proof (rule ccontr)
    assume "\<not> m_isPromiseSet st"
    with inv have "list_all entered ths" by (simp add: race_inv_def)
    with i have "entered (ths ! i)" by (simp add: list_all_length)
    with Setting show False by simp
  qed
  with inv have one: "length (m_speakPromise st) + sum_list (map setting ths) = 1"
    by (simp add: race_inv_def)
  from sum_setting_update [OF i, of Returned] Setting
  have "sum_list (map setting (ths[i := Returned])) + 1 = sum_list (map setting ths)"
    by simp
  moreover have "length (m_speakPromise st @ [outcome_of t]) = length (m_speakPromise st) + 1"
    by simp
  ultimately have "length (m_speakPromise st @ [outcome_of t])
      + sum_list (map setting (ths[i := Returned])) = 1"
    using one by arith
  with flag e show ?thesis
    by (simp add: race_inv_def promise_set_def del: sum_list_eq_0_iff)
next
  case Returned
  with step have "th' = Returned" "st' = st" by simp_all
  moreover from Returned have "ths[i := Returned] = ths"
    by (metis list_update_id)
  ultimately show ?thesis using inv by simp
qed

lemma race_inv_race:
  "race_inv cfg \<Longrightarrow> race_inv (race sched cfg)"
proof (induction sched arbitrary: cfg)
  case Nil
  then show ?case by simp
next
  case (Cons i sched)
  obtain ths st where cfg: "cfg = (ths, st)" by (cases cfg)
  show ?case
  proof (cases "i < length ths")
    case True
    obtain th' st' where s: "thread_step (ths ! i) st = (th', st')"
      by (cases "thread_step (ths ! i) st")
    from race_inv_step [OF _ True s] Cons.prems cfg
    have "race_inv (ths[i := th'], st')" by simp
    from Cons.IH [OF this] cfg True s show ?thesis by simp
  next
    case False
    with Cons cfg show ?thesis by simp
  qed
qed

lemma from_triggers_step:
  assumes inv: "from_triggers T (ths, st)" and i: "i < length ths"
    and step: "thread_step (ths ! i) st = (th', st')"
  shows "from_triggers T (ths[i := th'], st')"
proof -
  from i have m: "ths ! i \<in> set ths" by simp
  have sub: "set (ths[i := th']) \<subseteq> insert th' (set ths)"
    by (rule set_update_subset_insert)
  show ?thesis
  proof (cases "ths ! i")
    case (Entered t)
    with inv m have "t \<in> T" by (auto simp: from_triggers_def)
    moreover from Entered step have "trigger_of th' = Some t \<or> trigger_of th' = None"
      and "m_speakPromise st' = m_speakPromise st"
      by (auto simp: test_and_set_def split: if_splits)
    ultimately show ?thesis using inv sub
      by (fastforce simp: from_triggers_def)
  next
    case (Setting t)
    with inv m have "t \<in> T" by (auto simp: from_triggers_def)
    moreover from Setting step have "th' = Returned"
      and "m_speakPromise st' = m_speakPromise st @ [outcome_of t]"
      by (auto simp: promise_set_def)
    ultimately show ?thesis using inv sub
      by (fastforce simp: from_triggers_def)
  next
    case Returned
    with step have "th' = Returned" "st' = st" by simp_all
    with inv sub show ?thesis
      by (fastforce simp: from_triggers_def)
  qed
qed

lemma from_triggers_race:
  "from_triggers T cfg \<Longrightarrow> from_triggers T (race sched cfg)"
proof (induction sched arbitrary: cfg)
  case Nil
  then show ?case by simp
next
  case (Cons i sched)
  obtain ths st where cfg: "cfg = (ths, st)" by (cases cfg)
  show ?case
  proof (cases "i < length ths")
    case True
    obtain th' st' where s: "thread_step (ths ! i) st = (th', st')"
      by (cases "thread_step (ths ! i) st")
    from from_triggers_step [OF _ True s] Cons.prems cfg
    have "from_triggers T (ths[i := th'], st')" by simp
    from Cons.IH [OF this] cfg True s show ?thesis by simp
  next
    case False
    with Cons cfg show ?thesis by simp
  qed
qed

lemma length_race: "length (fst (race sched (ths, st))) = length ths"
proof (induction sched arbitrary: ths st)
  case Nil
  show ?case by simp
next
  case (Cons i sched)
  show ?case
  proof (cases "i < length ths")
    case True
    obtain th' st' where s: "thread_step (ths ! i) st = (th', st')"
      by (cases "thread_step (ths ! i) st")
    with True Cons.IH [of "ths[i := th']" st'] show ?thesis by simp
  next
    case False
    with Cons.IH [of ths st] show ?thesis by simp
  qed
qed

lemma invoke_resolved: "m_isPromiseSet st \<Longrightarrow> invoke t st = st"
  by (cases t) (simp_all add: SpeakComplete_def SpeakError_def test_and_set_def)

lemma invoke_fresh:
  "\<not> m_isPromiseSet st \<Longrightarrow> m_speakPromise st = [] \<Longrightarrow>
     m_isPromiseSet (invoke t st) \<and> m_speakPromise (invoke t st) = [outcome_of t]"
  by (cases t) (simp_all add: SpeakComplete_def SpeakError_def test_and_set_def promise_set_def)

lemma fold_invoke_resolved: "m_isPromiseSet st \<Longrightarrow> fold invoke ts st = st"
  by (induction ts) (simp_all add: invoke_resolved)

text \<open>
  Claim C1. From a session whose completion is unresolved, as \<^verbatim>\<open>SpeakAsync\<close> leaves
  it: of any sequence of calls of \<^verbatim>\<open>SpeakComplete\<close> and \<^verbatim>\<open>SpeakError\<close> the first
  sets the result and the others change nothing; and however the atomic steps of racing
  calls interleave, the promise is set at most once, and exactly once, by one of the
  calls, when all of them have returned.
\<close>

theorem C1_resolved_exactly_once:
  assumes "\<not> m_isPromiseSet st" and "m_speakPromise st = []"
  shows "m_speakPromise (fold invoke (t # ts) st) = [outcome_of t]
     \<and> fold invoke (t # ts) st = invoke t st
     \<and> length (m_speakPromise (snd (race sched (map Entered ts, st)))) \<le> 1
     \<and> (ts \<noteq> [] \<and> list_all (\<lambda>th. th = Returned) (fst (race sched (map Entered ts, st)))
        \<longrightarrow> (\<exists>t'\<in>set ts. m_speakPromise (snd (race sched (map Entered ts, st))) = [outcome_of t']))"
proof -
  from invoke_fresh [OF assms] have r: "m_isPromiseSet (invoke t st)"
    and p: "m_speakPromise (invoke t st) = [outcome_of t]"
    by simp_all
  have seq: "fold invoke (t # ts) st = invoke t st"
    using fold_invoke_resolved [OF r] by simp
  obtain ths' st' where cfg: "race sched (map Entered ts, st) = (ths', st')"
    by (cases "race sched (map Entered ts, st)")
  have "race_inv (map Entered ts, st)"
    using assms by (simp add: race_inv_def list_all_iff)
  from race_inv_race [OF this, of sched] cfg have inv: "race_inv (ths', st')"
    by simp
  have "from_triggers (set ts) (map Entered ts, st)"
    using assms by (auto simp: from_triggers_def)
  from from_triggers_race [OF this, of sched] cfg
  have sub: "set (m_speakPromise st') \<subseteq> outcome_of ` set ts"
    by (simp add: from_triggers_def)
  from length_race [of sched "map Entered ts" st] cfg have len: "length ths' = length ts"
    by simp
  have le: "length (m_speakPromise st') \<le> 1"
    using inv by (simp add: race_inv_def split: if_splits)
  have fin: "\<exists>t'\<in>set ts. m_speakPromise st' = [outcome_of t']"
    if ne: "ts \<noteq> []" and ret: "list_all (\<lambda>th. th = Returned) ths'"
  proof -
    from ne len obtain th rest where c: "ths' = th # rest" by (cases ths') auto
    with ret have "\<not> list_all entered ths'" by simp
    with inv have one: "length (m_speakPromise st') + sum_list (map setting ths') = 1"
      by (simp add: race_inv_def split: if_splits)
    from ret have "sum_list (map setting ths') = 0"
      by (induction ths') simp_all
    with one have "length (m_speakPromise st') = 1" by simp
    then obtain r where "m_speakPromise st' = [r]"
      by (cases "m_speakPromise st'") simp_all
    with sub show ?thesis by auto
  qed
  from seq p le fin cfg show ?thesis by simp
qed

text \<open>
  Three calls in sequence, and a race of two in which the second thread tests the flag
  between the first thread's \<^verbatim>\<open>test_and_set\<close> and its \<^verbatim>\<open>set_value\<close>.
\<close>

theorem C1_resolved_exactly_once_witness:
  "\<not> m_isPromiseSet (snd (SpeakAsync test_env [] constructed))
   \<and> m_speakPromise (snd (SpeakAsync test_env [] constructed)) = []
   \<and> m_speakPromise (fold invoke [Error WebsocketException, Complete, Error JsonTypeError]
        (snd (SpeakAsync test_env [] constructed))) = [Exception WebsocketException]
   \<and> fst (race [0, 1, 1, 0, 1] ([Entered Complete, Entered (Error JsonTypeError)],
        snd (SpeakAsync test_env [] constructed))) = [Returned, Returned]
   \<and> m_speakPromise (snd (race [0, 1, 1, 0, 1] ([Entered Complete, Entered (Error JsonTypeError)],
        snd (SpeakAsync test_env [] constructed)))) = [Value]"
proof -
  have a: "\<not> m_isPromiseSet (snd (SpeakAsync test_env [] constructed))"
    and b: "m_speakPromise (snd (SpeakAsync test_env [] constructed)) = []"
    by (simp_all add: SpeakAsync_def test_env_def constructed_def record_call_def)
  have c: "fst (race [0, 1, 1, 0, 1] ([Entered Complete, Entered (Error JsonTypeError)],
        snd (SpeakAsync test_env [] constructed))) = [Returned, Returned]"
    by (simp add: SpeakAsync_def test_env_def constructed_def record_call_def test_and_set_def
        promise_set_def)
  have d: "m_speakPromise (snd (race [0, 1, 1, 0, 1] ([Entered Complete, Entered (Error JsonTypeError)],
        snd (SpeakAsync test_env [] constructed)))) = [Value]"
    by (simp add: SpeakAsync_def test_env_def constructed_def record_call_def test_and_set_def
        promise_set_def)
  have "m_speakPromise (fold invoke [Error WebsocketException, Complete, Error JsonTypeError]
        (snd (SpeakAsync test_env [] constructed))) = [outcome_of (Error WebsocketException)]"
    using C1_resolved_exactly_once [OF a b, of "Error WebsocketException"
      "[Complete, Error JsonTypeError]" "[0, 1, 1, 0, 1]"]
    by (rule conjunct1)
  then have e: "m_speakPromise (fold invoke [Error WebsocketException, Complete, Error JsonTypeError]
        (snd (SpeakAsync test_env [] constructed))) = [Exception WebsocketException]"
    by (simp only: outcome_of.simps)
  from a b e c d show ?thesis by blast
qed

section \<open>The configuration message and inbound messages\<close>

lemma speech_config_metadataOptions:
  "json_path (speech_config cbs) [''context'', ''synthesis'', ''audio'', ''metadataOptions'']
     = Inr (metadataOptions cbs)"
  by (simp add: speech_config_def)

lemma OnOpen_first_send:
  assumes "IsCurrentConnection st hdl"
  shows "take (Suc (length (calls st))) (calls (snd (OnOpen env cbs hdl st)))
     = calls st @ [Send hdl (config_header (GetTimeStamp env 0)) (JsonDump (speech_config cbs))]"
  using assms
  by (auto simp: OnOpen_def Let_def send_def record_call_def split: option.splits)

lemma OnOpen_stale:
  assumes "\<not> IsCurrentConnection st hdl"
  shows "OnOpen env cbs hdl st = (None, st)"
  using assms by (simp add: OnOpen_def)

text \<open>
  Claim C4. The JSON of the \<^verbatim>\<open>speech.config\<close> message has, under
  \<^verbatim>\<open>context.synthesis.audio.metadataOptions\<close>, exactly the five members
  \<^verbatim>\<open>bookmarkEnabled\<close>, \<^verbatim>\<open>punctuationBoundaryEnabled\<close>, \<^verbatim>\<open>sentenceBoundaryEnabled\<close>,
  \<^verbatim>\<open>visemeEnabled\<close> and \<^verbatim>\<open>wordBoundaryEnabled\<close>, each the boolean that tells whether
  the corresponding handler is registered; \<^verbatim>\<open>OnOpen\<close> on the current connection passes
  this JSON to \<^verbatim>\<open>send\<close> first, and does nothing for another connection.
\<close>

theorem C4_config_mirrors_callbacks:
  "json_path (speech_config cbs) [''context'', ''synthesis'', ''audio'', ''metadataOptions'']
     = Inr (JObject
        [(''bookmarkEnabled'', JBool (BookmarkCallback cbs)),
         (''punctuationBoundaryEnabled'', JBool (PunctuationBoundaryCallback cbs)),
         (''sentenceBoundaryEnabled'', JBool (SentenceBoundaryCallback cbs)),
         (''visemeEnabled'', JBool (VisemeCallback cbs)),
         (''wordBoundaryEnabled'', JBool (WordBoundaryCallback cbs))])
   \<and> (IsCurrentConnection st hdl \<longrightarrow>
        take (Suc (length (calls st))) (calls (snd (OnOpen env cbs hdl st)))
          = calls st @ [Send hdl (config_header (GetTimeStamp env 0))
                          (JsonDump (speech_config cbs))])
   \<and> (\<not> IsCurrentConnection st hdl \<longrightarrow> OnOpen env cbs hdl st = (None, st))"
  using speech_config_metadataOptions [of cbs] OnOpen_first_send [of st hdl env cbs]
    OnOpen_stale [of st hdl env cbs]
  by (simp add: metadataOptions_def)

lemma started_simps:
  "m_connection started = Some 1" "calls started = [Connect 1]"
  "m_mp3Queue started = []" "m_speakPromise started = []" "\<not> m_isPromiseSet started"
  "\<not> m_mp3QueueDone started" "\<not> m_isStopping started"
  by (simp_all add: started_def SpeakAsync_def test_env_def constructed_def record_call_def)

text \<open>
  With the word-boundary handler alone, \<^verbatim>\<open>wordBoundaryEnabled\<close> is true and the other four
  are false.
\<close>

theorem C4_config_mirrors_callbacks_witness:
  "json_path (speech_config only_word_boundary)
       [''context'', ''synthesis'', ''audio'', ''metadataOptions'']
     = Inr (JObject
        [(''bookmarkEnabled'', JBool False),
         (''punctuationBoundaryEnabled'', JBool False),
         (''sentenceBoundaryEnabled'', JBool False),
         (''visemeEnabled'', JBool False),
         (''wordBoundaryEnabled'', JBool True)])
   \<and> take (Suc (length (calls started)))
         (calls (snd (OnOpen test_env only_word_boundary (Some 1) started)))
       = calls started @ [Send (Some 1) (config_header (GetTimeStamp test_env 0))
                            (JsonDump (speech_config only_word_boundary))]
   \<and> OnOpen test_env only_word_boundary (Some 2) started = (None, started)"
proof -
  have cur: "IsCurrentConnection started (Some 1)"
    and stale: "\<not> IsCurrentConnection started (Some 2)"
    by (simp_all add: IsCurrentConnection_def started_simps)
  note t1 = C4_config_mirrors_callbacks [of only_word_boundary started "Some 1" test_env]
  note t2 = C4_config_mirrors_callbacks [of only_word_boundary started "Some 2" test_env]
  from t1 have "json_path (speech_config only_word_boundary)
       [''context'', ''synthesis'', ''audio'', ''metadataOptions'']
     = Inr (JObject
        [(''bookmarkEnabled'', JBool (BookmarkCallback only_word_boundary)),
         (''punctuationBoundaryEnabled'', JBool (PunctuationBoundaryCallback only_word_boundary)),
         (''sentenceBoundaryEnabled'', JBool (SentenceBoundaryCallback only_word_boundary)),
         (''visemeEnabled'', JBool (VisemeCallback only_word_boundary)),
         (''wordBoundaryEnabled'', JBool (WordBoundaryCallback only_word_boundary))])"
    by (rule conjunct1)
  then have a: "json_path (speech_config only_word_boundary)
       [''context'', ''synthesis'', ''audio'', ''metadataOptions'']
     = Inr (JObject
        [(''bookmarkEnabled'', JBool False),
         (''punctuationBoundaryEnabled'', JBool False),
         (''sentenceBoundaryEnabled'', JBool False),
         (''visemeEnabled'', JBool False),
         (''wordBoundaryEnabled'', JBool True)])"
    by (simp add: only_word_boundary_def)
  from t1 cur have b: "take (Suc (length (calls started)))
         (calls (snd (OnOpen test_env only_word_boundary (Some 1) started)))
       = calls started @ [Send (Some 1) (config_header (GetTimeStamp test_env 0))
                            (JsonDump (speech_config only_word_boundary))]"
    by blast
  from t2 stale have c: "OnOpen test_env only_word_boundary (Some 2) started = (None, started)"
    by blast
  from a b c show ?thesis by blast
qed

lemma sv_find_0: "sv_find s w 0 = find_first w s"
  by (cases "find_first w s") (simp_all add: sv_find_def)

lemma find_first_complete:
  assumes "occurs_at s w i" and "\<forall>j<i. \<not> occurs_at s w j"
  shows "find_first w s = Some i"
proof (cases "find_first w s")
  case None
  from assms(1) have "i \<le> length s" by (simp add: occurs_at_def)
  from find_first_None [OF None this] assms(1) show ?thesis
    by (simp add: occurs_at_def)
next
  case (Some k)
  have occ: "occurs_at s w k"
    using find_first_bound [OF Some] find_first_occurs [OF Some] by (simp add: occurs_at_def)
  have "\<not> i < k"
  proof
    assume "i < k"
    from find_first_least [OF Some this] assms(1) show False
      by (simp add: occurs_at_def)
  qed
  moreover have "\<not> k < i"
    using assms(2) occ by blast
  ultimately have "k = i" by simp
  with Some show ?thesis by simp
qed

lemma occurs_at_append: "occurs_at (pre @ w @ rest) w (length pre)"
  by (simp add: occurs_at_def)

lemma OnMessage_binary:
  assumes "IsCurrentConnection st hdl"
  shows "OnMessage env cbs hdl (Binary payload) st
     = (None, st\<lparr>m_mp3Queue := m_mp3Queue st @ [payload]\<rparr>)"
  using assms by (simp add: OnMessage_def Mp3QueuePush_def)

lemma Mp3Thread_process_no_marker:
  assumes "2 \<le> length msg" and "sv_find (drop 2 msg) audio_marker 0 = None"
  shows "Mp3Thread_process env msg st = Some st"
  using assms by (simp add: Mp3Thread_process_def)

lemma length_audio_marker: "length audio_marker = 12"
  by (simp add: audio_marker_def)

lemma Mp3Thread_process_marker:
  assumes len: "2 \<le> length msg"
    and split: "drop 2 msg = pre @ audio_marker @ audio"
    and first: "\<forall>j<length pre. \<not> occurs_at (drop 2 msg) audio_marker j"
  shows "\<exists>st'. Mp3Thread_process env msg st = Some st'
           \<and> calls st' = calls st @ [Convert audio]
           \<and> mp3Decoder st' = mp3Decoder st @ [audio]"
proof -
  have "occurs_at (drop 2 msg) audio_marker (length pre)"
    unfolding split by (rule occurs_at_append)
  from find_first_complete [OF this first]
  have f: "sv_find (drop 2 msg) audio_marker 0 = Some (length pre)"
    by (simp add: sv_find_0)
  have d: "drop (length pre + 12) (drop 2 msg) = audio"
    unfolding split by (simp add: length_audio_marker)
  show ?thesis
  proof (cases "Convert_raises env (mp3Decoder st) audio")
    case None
    with len f d show ?thesis
      by (simp add: Mp3Thread_process_def Let_def record_call_def)
  next
    case (Some ex)
    with len f d show ?thesis
      by (simp add: Mp3Thread_process_def Let_def record_call_def SpeakError_def
          test_and_set_def promise_set_def)
  qed
qed

lemma find_first_absent:
  assumes "\<forall>j. \<not> occurs_at s w j"
  shows "find_first w s = None"
proof (cases "find_first w s")
  case None
  then show ?thesis .
next
  case (Some k)
  have "occurs_at s w k"
    using find_first_bound [OF Some] find_first_occurs [OF Some] by (simp add: occurs_at_def)
  with assms show ?thesis by blast
qed

text \<open>
  Claim C5, as the code has it. \<^verbatim>\<open>OnMessage\<close> puts every binary message of the current
  connection into the queue, whole, whether it has the marker or not. The worker, on a
  dequeued message of at least two bytes: when the marker does not occur after the first
  two bytes, it drops the message without a call of the decoder; when it does, it passes
  to \<^verbatim>\<open>Convert\<close> exactly the bytes that follow the first occurrence.
\<close>

theorem C5_binary_enqueued_then_stripped:
  "(IsCurrentConnection st hdl \<longrightarrow>
      OnMessage env cbs hdl (Binary payload) st
        = (None, st\<lparr>m_mp3Queue := m_mp3Queue st @ [payload]\<rparr>))
   \<and> (2 \<le> length msg \<and> (\<forall>j. \<not> occurs_at (drop 2 msg) audio_marker j) \<longrightarrow>
      Mp3Thread_process env msg st = Some st)
   \<and> (2 \<le> length msg \<and> drop 2 msg = pre @ audio_marker @ audio
        \<and> (\<forall>j<length pre. \<not> occurs_at (drop 2 msg) audio_marker j) \<longrightarrow>
      map_option calls (Mp3Thread_process env msg st) = Some (calls st @ [Convert audio]))"
proof (intro conjI impI)
  assume "IsCurrentConnection st hdl"
  then show "OnMessage env cbs hdl (Binary payload) st
        = (None, st\<lparr>m_mp3Queue := m_mp3Queue st @ [payload]\<rparr>)"
    by (rule OnMessage_binary)
next
  assume h: "2 \<le> length msg \<and> (\<forall>j. \<not> occurs_at (drop 2 msg) audio_marker j)"
  then have "sv_find (drop 2 msg) audio_marker 0 = None"
    by (simp add: sv_find_0 find_first_absent)
  with h show "Mp3Thread_process env msg st = Some st"
    by (simp add: Mp3Thread_process_no_marker)
next
  assume h: "2 \<le> length msg \<and> drop 2 msg = pre @ audio_marker @ audio
        \<and> (\<forall>j<length pre. \<not> occurs_at (drop 2 msg) audio_marker j)"
  then have a: "2 \<le> length msg" and b: "drop 2 msg = pre @ audio_marker @ audio"
    and c: "\<forall>j<length pre. \<not> occurs_at (drop 2 msg) audio_marker j"
    by blast+
  from Mp3Thread_process_marker [OF a b c, of env st]
  show "map_option calls (Mp3Thread_process env msg st) = Some (calls st @ [Convert audio])"
    by auto
qed

text \<open>
  Claim C5 says that a binary message without the marker is discarded without being
  enqueued. \<^verbatim>\<open>OnMessage\<close> does not look for the marker: the message is in the queue
  afterwards.
\<close>

theorem C5_enqueued_counterexample:
  "sv_find (drop 2 ''xxPath:other'') audio_marker 0 = None
   \<and> m_mp3Queue started = []
   \<and> m_mp3Queue (snd (OnMessage test_env only_word_boundary (Some 1)
        (Binary ''xxPath:other'') started)) = [''xxPath:other'']"
  by code_simp

text \<open>
  A message without the marker, and one with a header line before it.
\<close>

theorem C5_binary_enqueued_then_stripped_witness:
  "OnMessage test_env only_word_boundary (Some 1) (Binary ''xxPath:other'') started
     = (None, started\<lparr>m_mp3Queue := m_mp3Queue started @ [''xxPath:other'']\<rparr>)
   \<and> Mp3Thread_process test_env ''xxPath:other'' started = Some started
   \<and> map_option calls (Mp3Thread_process test_env (''xxH:1'' @ audio_marker @ ''MP3'') started)
       = Some (calls started @ [Convert ''MP3''])"
proof -
  have cur: "IsCurrentConnection started (Some 1)"
    by (simp add: IsCurrentConnection_def started_simps)
  have absent: "2 \<le> length ''xxPath:other''
      \<and> (\<forall>j. \<not> occurs_at (drop 2 ''xxPath:other'') audio_marker j)"
    by (simp add: occurs_at_def audio_marker_def)
  have first: "2 \<le> length (''xxH:1'' @ audio_marker @ ''MP3'')
      \<and> drop 2 (''xxH:1'' @ audio_marker @ ''MP3'') = ''H:1'' @ audio_marker @ ''MP3''
      \<and> (\<forall>j<length ''H:1''.
            \<not> occurs_at (drop 2 (''xxH:1'' @ audio_marker @ ''MP3'')) audio_marker j)"
    by (simp add: occurs_at_def audio_marker_def less_Suc_eq)
  note t = C5_binary_enqueued_then_stripped [of started "Some 1" test_env only_word_boundary
      "''xxPath:other''" "''xxPath:other''"]
  note u = C5_binary_enqueued_then_stripped [of started "Some 1" test_env only_word_boundary
      "''xxPath:other''" "''xxH:1'' @ audio_marker @ ''MP3''" "''H:1''" "''MP3''"]
  from t cur have a: "OnMessage test_env only_word_boundary (Some 1) (Binary ''xxPath:other'') started
     = (None, started\<lparr>m_mp3Queue := m_mp3Queue started @ [''xxPath:other'']\<rparr>)"
    by blast
  from t absent have b: "Mp3Thread_process test_env ''xxPath:other'' started = Some started"
    by blast
  from u first have c: "map_option calls
        (Mp3Thread_process test_env (''xxH:1'' @ audio_marker @ ''MP3'') started)
       = Some (calls started @ [Convert ''MP3''])"
    by blast
  from a b c show ?thesis by blast
qed

lemma AsioThread_no_exception:
  "handler env cbs ev st = (None, st') \<Longrightarrow> AsioThread env cbs ev st = st'"
  by (simp add: AsioThread_def)

lemma AsioThread_exception:
  "handler env cbs ev st = (Some ex, st') \<Longrightarrow> AsioThread env cbs ev st = SpeakError ex st'"
  by (simp add: AsioThread_def)

lemma OnMessage_no_Path:
  "sv_find text ''Path:'' 0 = None \<Longrightarrow> OnMessage env cbs hdl (Text text) st = (None, st)"
  by (simp add: OnMessage_def)

lemma OnMessage_no_blank_line:
  "sv_find text ''Path:'' 0 = Some p \<Longrightarrow> sv_find text (CRLF @ CRLF) (p + 5) = None
    \<Longrightarrow> OnMessage env cbs hdl (Text text) st = (None, st)"
  by (simp add: OnMessage_def)

lemma OnMessage_parse_error:
  assumes "IsCurrentConnection st hdl"
    and "sv_find text ''Path:'' 0 = Some p"
    and "sv_find text (CRLF @ CRLF) (p + 5) = Some q"
    and "take (q - (p + 5)) (drop (p + 5) text) = ''audio.metadata''"
    and "json_parse env (drop (q + 4) text) = None"
  shows "OnMessage env cbs hdl (Text text) st = (Some JsonParseError, st)"
  using assms by (simp add: OnMessage_def)

lemma OnMessage_no_Metadata:
  assumes "IsCurrentConnection st hdl"
    and "sv_find text ''Path:'' 0 = Some p"
    and "sv_find text (CRLF @ CRLF) (p + 5) = Some q"
    and "take (q - (p + 5)) (drop (p + 5) text) = ''audio.metadata''"
    and "json_parse env (drop (q + 4) text) = Some json"
    and "json_at json ''Metadata'' = Inl ex"
  shows "OnMessage env cbs hdl (Text text) st = (Some ex, st)"
  using assms by (simp add: OnMessage_def)

lemma SpeakError_unresolved:
  "\<not> m_isPromiseSet st \<Longrightarrow>
     m_speakPromise (SpeakError ex st) = m_speakPromise st @ [Exception ex]"
  by (simp add: SpeakError_def test_and_set_def promise_set_def)

lemma OnSynthEvent_no_Type:
  "map_of members ''Type'' = None
    \<Longrightarrow> OnSynthEvent env cbs (JObject members) st = (Some JsonOutOfRange, st)"
  by (simp add: OnSynthEvent_def string_at_def)

lemma OnSynthEvent_no_Data:
  "map_of members ''Type'' = Some (JString ty) \<Longrightarrow> map_of members ''Data'' = None
    \<Longrightarrow> OnSynthEvent env cbs (JObject members) st = (Some JsonOutOfRange, st)"
  by (simp add: OnSynthEvent_def string_at_def)

lemma OnSynthEvent_no_Offset:
  "map_of members ''Type'' = Some (JString ty) \<Longrightarrow> map_of members ''Data'' = Some (JObject data)
    \<Longrightarrow> map_of data ''Offset'' = None
    \<Longrightarrow> OnSynthEvent env cbs (JObject members) st = (Some JsonOutOfRange, st)"
  by (simp add: OnSynthEvent_def string_at_def number_at_def)

lemma OnSynthEvents_append:
  "OnSynthEvents env cbs (pre @ rest) st
     = (case OnSynthEvents env cbs pre st of
          (Some ex, st') \<Rightarrow> (Some ex, st')
        | (None, st') \<Rightarrow> OnSynthEvents env cbs rest st')"
proof (induction pre arbitrary: st)
  case Nil
  show ?case by simp
next
  case (Cons e pre)
  obtain r s where e: "OnSynthEvent env cbs e st = (r, s)"
    by (cases "OnSynthEvent env cbs e st")
  show ?case
  proof (cases r)
    case None
    with e Cons.IH [of s] show ?thesis by simp
  next
    case (Some ex)
    with e show ?thesis by simp
  qed
qed

lemma OnSynthEvents_raising_event:
  assumes "OnSynthEvents env cbs pre st = (None, st1)"
    and "OnSynthEvent env cbs metadata st1 = (Some ex, st')"
  shows "OnSynthEvents env cbs (pre @ metadata # post) st = (Some ex, st')"
  using assms by (simp add: OnSynthEvents_append)

lemma OnMessage_metadata:
  assumes "IsCurrentConnection st hdl"
    and "sv_find payload ''Path:'' 0 = Some p"
    and "sv_find payload (CRLF @ CRLF) (p + 5) = Some q"
    and "take (q - (p + 5)) (drop (p + 5) payload) = ''audio.metadata''"
    and "json_parse env (drop (q + 4) payload) = Some json"
    and "json_at json ''Metadata'' = Inr events"
  shows "OnMessage env cbs hdl (Text payload) st
     = OnSynthEvents env cbs (json_elements events) st"
  using assms by (simp add: OnMessage_def)

text \<open>
  Claim C3, as the code has it. A text message without \<^verbatim>\<open>Path:\<close>, or without a blank
  line after it, changes nothing: no handler is called and the completion is untouched.
  A message for \<^verbatim>\<open>audio.metadata\<close> whose body does not parse, or has no
  \<^verbatim>\<open>Metadata\<close> member, or has an event without \<^verbatim>\<open>Type\<close>, \<^verbatim>\<open>Data\<close> or
  \<^verbatim>\<open>Offset\<close>, raises in the handler (for an event, after the events before it have
  been dispatched). Every exception that leaves \<^verbatim>\<open>OnMessage\<close> is caught by the network
  thread and passed to \<^verbatim>\<open>SpeakError\<close>, which resolves an unresolved completion with
  it. The thread then goes on with the next event.
\<close>

theorem C3_malformed_text_message:
  "(sv_find text ''Path:'' 0 = None \<longrightarrow>
      AsioThread env cbs (Received hdl (Text text)) st = st)
   \<and> (sv_find text ''Path:'' 0 = Some p \<and> sv_find text (CRLF @ CRLF) (p + 5) = None \<longrightarrow>
      AsioThread env cbs (Received hdl (Text text)) st = st)
   \<and> (IsCurrentConnection st hdl
        \<and> sv_find text ''Path:'' 0 = Some p \<and> sv_find text (CRLF @ CRLF) (p + 5) = Some q
        \<and> take (q - (p + 5)) (drop (p + 5) text) = ''audio.metadata''
        \<and> json_parse env (drop (q + 4) text) = None \<longrightarrow>
      AsioThread env cbs (Received hdl (Text text)) st = SpeakError JsonParseError st)
   \<and> (IsCurrentConnection st hdl
        \<and> sv_find text ''Path:'' 0 = Some p \<and> sv_find text (CRLF @ CRLF) (p + 5) = Some q
        \<and> take (q - (p + 5)) (drop (p + 5) text) = ''audio.metadata''
        \<and> json_parse env (drop (q + 4) text) = Some json
        \<and> json_at json ''Metadata'' = Inl ex \<longrightarrow>
      AsioThread env cbs (Received hdl (Text text)) st = SpeakError ex st)
   \<and> (OnMessage env cbs hdl (Text text) st = (Some ex, st') \<longrightarrow>
      AsioThread env cbs (Received hdl (Text text)) st = SpeakError ex st')
   \<and> (\<not> m_isPromiseSet st' \<longrightarrow>
      m_speakPromise (SpeakError ex st') = m_speakPromise st' @ [Exception ex])
   \<and> (map_of members ''Type'' = None \<longrightarrow>
      OnSynthEvent env cbs (JObject members) st = (Some JsonOutOfRange, st))
   \<and> (map_of members ''Type'' = Some (JString ty) \<and> map_of members ''Data'' = None \<longrightarrow>
      OnSynthEvent env cbs (JObject members) st = (Some JsonOutOfRange, st))
   \<and> (map_of members ''Type'' = Some (JString ty)
        \<and> map_of members ''Data'' = Some (JObject data) \<and> map_of data ''Offset'' = None \<longrightarrow>
      OnSynthEvent env cbs (JObject members) st = (Some JsonOutOfRange, st))
   \<and> (IsCurrentConnection st hdl
        \<and> sv_find text ''Path:'' 0 = Some p \<and> sv_find text (CRLF @ CRLF) (p + 5) = Some q
        \<and> take (q - (p + 5)) (drop (p + 5) text) = ''audio.metadata''
        \<and> json_parse env (drop (q + 4) text) = Some json
        \<and> json_at json ''Metadata'' = Inr events
        \<and> json_elements events = pre @ metadata # post
        \<and> OnSynthEvents env cbs pre st = (None, st1)
        \<and> OnSynthEvent env cbs metadata st1 = (Some ex, st') \<longrightarrow>
      AsioThread env cbs (Received hdl (Text text)) st = SpeakError ex st')"
proof (intro conjI impI)
  assume "sv_find text ''Path:'' 0 = None"
  then show "AsioThread env cbs (Received hdl (Text text)) st = st"
    by (simp add: AsioThread_no_exception OnMessage_no_Path)
next
  assume "sv_find text ''Path:'' 0 = Some p \<and> sv_find text (CRLF @ CRLF) (p + 5) = None"
  then show "AsioThread env cbs (Received hdl (Text text)) st = st"
    by (simp add: AsioThread_no_exception OnMessage_no_blank_line)
next
  assume "IsCurrentConnection st hdl
        \<and> sv_find text ''Path:'' 0 = Some p \<and> sv_find text (CRLF @ CRLF) (p + 5) = Some q
        \<and> take (q - (p + 5)) (drop (p + 5) text) = ''audio.metadata''
        \<and> json_parse env (drop (q + 4) text) = None"
  then have "OnMessage env cbs hdl (Text text) st = (Some JsonParseError, st)"
    by (intro OnMessage_parse_error) blast+
  then show "AsioThread env cbs (Received hdl (Text text)) st = SpeakError JsonParseError st"
    by (simp add: AsioThread_exception)
next
  assume "IsCurrentConnection st hdl
        \<and> sv_find text ''Path:'' 0 = Some p \<and> sv_find text (CRLF @ CRLF) (p + 5) = Some q
        \<and> take (q - (p + 5)) (drop (p + 5) text) = ''audio.metadata''
        \<and> json_parse env (drop (q + 4) text) = Some json
        \<and> json_at json ''Metadata'' = Inl ex"
  then have "OnMessage env cbs hdl (Text text) st = (Some ex, st)"
    by (intro OnMessage_no_Metadata) blast+
  then show "AsioThread env cbs (Received hdl (Text text)) st = SpeakError ex st"
    by (simp add: AsioThread_exception)
next
  assume "OnMessage env cbs hdl (Text text) st = (Some ex, st')"
  then show "AsioThread env cbs (Received hdl (Text text)) st = SpeakError ex st'"
    by (simp add: AsioThread_exception)
next
  assume "\<not> m_isPromiseSet st'"
  then show "m_speakPromise (SpeakError ex st') = m_speakPromise st' @ [Exception ex]"
    by (rule SpeakError_unresolved)next
  assume "map_of members ''Type'' = None"
  then show "OnSynthEvent env cbs (JObject members) st = (Some JsonOutOfRange, st)"
    by (rule OnSynthEvent_no_Type)
next
  assume "map_of members ''Type'' = Some (JString ty) \<and> map_of members ''Data'' = None"
  then show "OnSynthEvent env cbs (JObject members) st = (Some JsonOutOfRange, st)"
    by (simp add: OnSynthEvent_no_Data)
next
  assume "map_of members ''Type'' = Some (JString ty)
        \<and> map_of members ''Data'' = Some (JObject data) \<and> map_of data ''Offset'' = None"
  then show "OnSynthEvent env cbs (JObject members) st = (Some JsonOutOfRange, st)"
    by (simp add: OnSynthEvent_no_Offset)
next
  assume h: "IsCurrentConnection st hdl
        \<and> sv_find text ''Path:'' 0 = Some p \<and> sv_find text (CRLF @ CRLF) (p + 5) = Some q
        \<and> take (q - (p + 5)) (drop (p + 5) text) = ''audio.metadata''
        \<and> json_parse env (drop (q + 4) text) = Some json
        \<and> json_at json ''Metadata'' = Inr events
        \<and> json_elements events = pre @ metadata # post
        \<and> OnSynthEvents env cbs pre st = (None, st1)
        \<and> OnSynthEvent env cbs metadata st1 = (Some ex, st')"
  then have "OnMessage env cbs hdl (Text text) st
      = OnSynthEvents env cbs (json_elements events) st"
    by (intro OnMessage_metadata) blast+
  moreover from h have "OnSynthEvents env cbs (pre @ metadata # post) st = (Some ex, st')"
    by (intro OnSynthEvents_raising_event) blast+
  moreover from h have "json_elements events = pre @ metadata # post"
    by blast
  ultimately have "OnMessage env cbs hdl (Text text) st = (Some ex, st')"
    by simp
  then show "AsioThread env cbs (Received hdl (Text text)) st = SpeakError ex st'"
    by (simp add: AsioThread_exception)
qed

text \<open>
  Claim C3 says that a body that is not valid JSON, or lacks required fields, does not
  resolve the completion with an error. On an unresolved session it does: the exception
  of the parser, or of \<^verbatim>\<open>at("Metadata")\<close>, reaches \<^verbatim>\<open>SpeakError\<close>.
\<close>

theorem C3_malformed_json_counterexample:
  "m_speakPromise started = []
   \<and> m_speakPromise (AsioThread test_env only_word_boundary
        (Received (Some 1) (Text (''Path:audio.metadata'' @ CRLF @ CRLF @ ''{''))) started)
       = [Exception JsonParseError]
   \<and> m_speakPromise (AsioThread test_env only_word_boundary
        (Received (Some 1) (Text (''Path:audio.metadata'' @ CRLF @ CRLF @ ''{}''))) started)
       = [Exception JsonOutOfRange]"
  by code_simp

text \<open>
  A message without \<^verbatim>\<open>Path:\<close>, one without the blank line, one whose body is not JSON,
  one whose body is the empty object, events without \<^verbatim>\<open>Type\<close>, \<^verbatim>\<open>Data\<close> or
  \<^verbatim>\<open>Offset\<close>, and a message whose only event has no \<^verbatim>\<open>Data\<close>.
\<close>

theorem C3_malformed_text_message_witness:
  "AsioThread test_env only_word_boundary (Received (Some 1) (Text ''X-RequestId:1'')) started
     = started
   \<and> AsioThread test_env only_word_boundary (Received (Some 1) (Text ''Path:audio.metadata''))
       started = started
   \<and> AsioThread test_env only_word_boundary
        (Received (Some 1) (Text (''Path:audio.metadata'' @ CRLF @ CRLF @ ''{''))) started
       = SpeakError JsonParseError started
   \<and> AsioThread test_env only_word_boundary
        (Received (Some 1) (Text (''Path:audio.metadata'' @ CRLF @ CRLF @ ''{}''))) started
       = SpeakError JsonOutOfRange started
   \<and> m_speakPromise (SpeakError JsonOutOfRange started)
       = m_speakPromise started @ [Exception JsonOutOfRange]
   \<and> OnSynthEvent test_env only_word_boundary (JObject []) started
       = (Some JsonOutOfRange, started)
   \<and> OnSynthEvent test_env only_word_boundary
        (JObject [(''Type'', JString ''SessionEnd'')]) started
       = (Some JsonOutOfRange, started)
   \<and> OnSynthEvent test_env only_word_boundary
        (JObject [(''Type'', JString ''SessionEnd''), (''Data'', JObject [])]) started
       = (Some JsonOutOfRange, started)
   \<and> AsioThread event_env only_word_boundary
        (Received (Some 1) (Text (''Path:audio.metadata'' @ CRLF @ CRLF @ metadata_body))) started
       = SpeakError JsonOutOfRange started"
proof -
  let ?bad = "''Path:audio.metadata'' @ CRLF @ CRLF @ ''{''"
  let ?empty = "''Path:audio.metadata'' @ CRLF @ CRLF @ ''{}''"
  have cur: "IsCurrentConnection started (Some 1)"
    by (simp add: IsCurrentConnection_def started_simps)
  have h1: "sv_find ''X-RequestId:1'' ''Path:'' 0 = None"
    by code_simp
  have h2: "sv_find ''Path:audio.metadata'' ''Path:'' 0 = Some 0
      \<and> sv_find ''Path:audio.metadata'' (CRLF @ CRLF) (0 + 5) = None"
    by code_simp
  have h3: "sv_find ?bad ''Path:'' 0 = Some 0 \<and> sv_find ?bad (CRLF @ CRLF) (0 + 5) = Some 19
      \<and> take (19 - (0 + 5)) (drop (0 + 5) ?bad) = ''audio.metadata''
      \<and> json_parse test_env (drop (19 + 4) ?bad) = None"
    by code_simp
  have h4: "sv_find ?empty ''Path:'' 0 = Some 0 \<and> sv_find ?empty (CRLF @ CRLF) (0 + 5) = Some 19
      \<and> take (19 - (0 + 5)) (drop (0 + 5) ?empty) = ''audio.metadata''
      \<and> json_parse test_env (drop (19 + 4) ?empty) = Some (JObject [])
      \<and> json_at (JObject []) ''Metadata'' = Inl JsonOutOfRange"
    by code_simp
  have h5: "\<not> m_isPromiseSet started"
    by (simp add: started_simps)
  from h1 C3_malformed_text_message [of "''X-RequestId:1''" test_env only_word_boundary
      "Some 1" started]
  have a: "AsioThread test_env only_word_boundary (Received (Some 1) (Text ''X-RequestId:1''))
      started = started"
    by blast
  from h2 C3_malformed_text_message [of "''Path:audio.metadata''" test_env only_word_boundary
      "Some 1" started 0]
  have b: "AsioThread test_env only_word_boundary
      (Received (Some 1) (Text ''Path:audio.metadata'')) started = started"
    by blast
  from cur h3 C3_malformed_text_message [of ?bad test_env only_word_boundary "Some 1" started 0 19]
  have c: "AsioThread test_env only_word_boundary (Received (Some 1) (Text ?bad)) started
      = SpeakError JsonParseError started"
    by blast
  from cur h4 C3_malformed_text_message [of ?empty test_env only_word_boundary "Some 1" started 0 19
      "JObject []" JsonOutOfRange]
  have d: "AsioThread test_env only_word_boundary (Received (Some 1) (Text ?empty)) started
      = SpeakError JsonOutOfRange started"
    by blast
  from h5 C3_malformed_text_message [of _ _ _ _ _ _ _ _ JsonOutOfRange started]
  have e: "m_speakPromise (SpeakError JsonOutOfRange started)
       = m_speakPromise started @ [Exception JsonOutOfRange]"
    by blast
  have h6: "map_of ([] :: (string \<times> json) list) ''Type'' = None"
    by simp
  have h7: "map_of [(''Type'', JString ''SessionEnd'')] ''Type'' = Some (JString ''SessionEnd'')
      \<and> map_of [(''Type'', JString ''SessionEnd'')] ''Data'' = None"
    by simp
  have h8: "map_of [(''Type'', JString ''SessionEnd''), (''Data'', JObject [])] ''Type''
        = Some (JString ''SessionEnd'')
      \<and> map_of [(''Type'', JString ''SessionEnd''), (''Data'', JObject [])] ''Data''
        = Some (JObject [])
      \<and> map_of ([] :: (string \<times> json) list) ''Offset'' = None"
    by simp
  let ?ev = "''Path:audio.metadata'' @ CRLF @ CRLF @ metadata_body"
  let ?event = "JObject [(''Type'', JString ''SessionEnd'')]"
  let ?json = "JObject [(''Metadata'', JArray [?event])]"
  have h9: "sv_find ?ev ''Path:'' 0 = Some 0 \<and> sv_find ?ev (CRLF @ CRLF) (0 + 5) = Some 19
      \<and> take (19 - (0 + 5)) (drop (0 + 5) ?ev) = ''audio.metadata''
      \<and> json_parse event_env (drop (19 + 4) ?ev) = Some ?json
      \<and> json_at ?json ''Metadata'' = Inr (JArray [?event])
      \<and> json_elements (JArray [?event]) = [] @ ?event # []
      \<and> OnSynthEvents event_env only_word_boundary [] started = (None, started)"
    by code_simp
  from h6 C3_malformed_text_message [of _ test_env only_word_boundary _ started _ _ _ _ _ "[]"]
  have f: "OnSynthEvent test_env only_word_boundary (JObject []) started
       = (Some JsonOutOfRange, started)"
    by blast
  from h7 C3_malformed_text_message [of _ test_env only_word_boundary _ started _ _ _ _ _
      "[(''Type'', JString ''SessionEnd'')]" "''SessionEnd''"]
  have g: "OnSynthEvent test_env only_word_boundary ?event started
       = (Some JsonOutOfRange, started)"
    by blast
  from h8 C3_malformed_text_message [of _ test_env only_word_boundary _ started _ _ _ _ _
      "[(''Type'', JString ''SessionEnd''), (''Data'', JObject [])]" "''SessionEnd''" "[]"]
  have h: "OnSynthEvent test_env only_word_boundary
        (JObject [(''Type'', JString ''SessionEnd''), (''Data'', JObject [])]) started
       = (Some JsonOutOfRange, started)"
    by blast
  from h7 C3_malformed_text_message [of _ event_env only_word_boundary _ started _ _ _ _ _
      "[(''Type'', JString ''SessionEnd'')]" "''SessionEnd''"]
  have g': "OnSynthEvent event_env only_word_boundary ?event started
       = (Some JsonOutOfRange, started)"
    by blast
  from cur h9 g' C3_malformed_text_message [of ?ev event_env only_word_boundary "Some 1" started 0 19 ?json
      JsonOutOfRange started _ _ _ "JArray [?event]" "[]" ?event "[]" started]
  have i: "AsioThread event_env only_word_boundary (Received (Some 1) (Text ?ev)) started
       = SpeakError JsonOutOfRange started"
    by blast
  from a b c d e f g h i show ?thesis by blast
qed

section \<open>The audio pipeline\<close>

lemma audios_simps:
  "audios [] = []"
  "audios (m # ms) = (case audio_of m of None \<Rightarrow> audios ms | Some a \<Rightarrow> a # audios ms)"
  by (simp_all add: audios_def split: option.splits)

lemma audios_append: "audios (xs @ ys) = audios xs @ audios ys"
  by (induction xs) (simp_all add: audios_simps split: option.splits)

lemma map_filter_append:
  "List.map_filter f (xs @ ys) = List.map_filter f xs @ List.map_filter f ys"
  by (simp add: List.map_filter_def)

lemma decoded_Convert: "decoded (record_call (Convert b) st) = decoded st @ [b]"
  by (simp add: decoded_def record_call_def map_filter_append)

lemma decoded_SpeakError: "decoded (SpeakError ex st) = decoded st"
  by (simp add: decoded_def SpeakError_def test_and_set_def promise_set_def)

lemma decoded_SpeakComplete: "decoded (SpeakComplete st) = decoded st"
  by (simp add: decoded_def SpeakComplete_def test_and_set_def promise_set_def)

lemma decoded_cong: "calls st' = calls st \<Longrightarrow> decoded st' = decoded st"
  by (simp add: decoded_def)

lemma SpeakError_fields:
  "m_mp3Queue (SpeakError ex st) = m_mp3Queue st"
  "m_mp3QueueDone (SpeakError ex st) = m_mp3QueueDone st"
  "m_isStopping (SpeakError ex st) = m_isStopping st"
  "calls (SpeakError ex st) = calls st"
  by (simp_all add: SpeakError_def test_and_set_def promise_set_def)

lemma SpeakComplete_fields:
  "m_mp3Queue (SpeakComplete st) = m_mp3Queue st"
  "m_mp3QueueDone (SpeakComplete st) = m_mp3QueueDone st"
  "m_isStopping (SpeakComplete st) = m_isStopping st"
  "calls (SpeakComplete st) = calls st"
  by (simp_all add: SpeakComplete_def test_and_set_def promise_set_def)

lemma record_call_fields:
  "m_mp3Queue (record_call c st) = m_mp3Queue st"
  "m_mp3QueueDone (record_call c st) = m_mp3QueueDone st"
  "m_isStopping (record_call c st) = m_isStopping st"
  "m_isPromiseSet (record_call c st) = m_isPromiseSet st"
  "m_speakPromise (record_call c st) = m_speakPromise st"
  by (simp_all add: record_call_def)

lemma Mp3Thread_process_effect:
  assumes "Mp3Thread_process env m st = Some st'"
  shows "decoded st' = decoded st @ audios [m]
     \<and> m_mp3Queue st' = m_mp3Queue st
     \<and> m_mp3QueueDone st' = m_mp3QueueDone st
     \<and> m_isStopping st' = m_isStopping st"
proof -
  from assms have len: "\<not> length m < 2"
    by (simp add: Mp3Thread_process_def split: if_splits)
  show ?thesis
  proof (cases "sv_find (drop 2 m) audio_marker 0")
    case None
    with assms len have "st' = st" by (simp add: Mp3Thread_process_def)
    moreover from None have "audios [m] = []" by (simp add: audios_simps audio_of_def)
    ultimately show ?thesis by simp
  next
    case (Some d)
    define a where "a = drop (d + 12) (drop 2 m)"
    define s1 where "s1 = record_call (Convert a) (st\<lparr>mp3Decoder := mp3Decoder st @ [a]\<rparr>)"
    from Some have au: "audios [m] = [a]"
      by (simp add: audios_simps audio_of_def a_def)
    have "decoded s1 = decoded (st\<lparr>mp3Decoder := mp3Decoder st @ [a]\<rparr>) @ [a]"
      unfolding s1_def by (rule decoded_Convert)
    then have d1: "decoded s1 = decoded st @ [a]"
      by (simp add: decoded_def)
    have f1: "m_mp3Queue s1 = m_mp3Queue st" "m_mp3QueueDone s1 = m_mp3QueueDone st"
      "m_isStopping s1 = m_isStopping st"
      by (simp_all add: s1_def record_call_fields)
    have "Mp3Thread_process env m st
        = (case Convert_raises env (mp3Decoder st) a of
             None \<Rightarrow> Some s1 | Some ex \<Rightarrow> Some (SpeakError ex s1))"
      using len Some unfolding a_def s1_def Mp3Thread_process_def Let_def by simp
    with assms have "st' = s1 \<or> (\<exists>ex. st' = SpeakError ex s1)"
      by (cases "Convert_raises env (mp3Decoder st) a") auto
    then show ?thesis
    proof
      assume "st' = s1"
      with d1 f1 au show ?thesis by simp
    next
      assume "\<exists>ex. st' = SpeakError ex s1"
      then obtain ex where "st' = SpeakError ex s1" by blast
      with d1 f1 au show ?thesis by (simp add: decoded_SpeakError SpeakError_fields)
    qed
  qed
qed

lemma Mp3Thread_process_defined:
  assumes "2 \<le> length m"
  shows "Mp3Thread_process env m st \<noteq> None"
  using assms by (simp add: Mp3Thread_process_def Let_def split: option.splits)

lemma Mp3Thread_process_no_raise:
  assumes nr: "\<forall>fed chunk. Convert_raises env fed chunk = None"
    and p: "Mp3Thread_process env m st = Some st'"
  shows "m_isPromiseSet st' = m_isPromiseSet st \<and> m_speakPromise st' = m_speakPromise st"
proof (cases "sv_find (drop 2 m) audio_marker 0")
  case None
  with p show ?thesis by (simp add: Mp3Thread_process_def split: if_splits)
next
  case (Some d)
  with p nr show ?thesis
    by (auto simp: Mp3Thread_process_def Let_def record_call_fields split: if_splits)
qed

lemma Mp3Thread_iteration_stopping:
  "m_isStopping st \<Longrightarrow> Mp3Thread_iteration env st = Some (Exited, st)"
  by (simp add: Mp3Thread_iteration_def Mp3Thread_locked_def)

lemma Mp3Thread_iteration_idle:
  "\<not> m_isStopping st \<Longrightarrow> m_mp3Queue st = [] \<Longrightarrow> \<not> m_mp3QueueDone st
    \<Longrightarrow> Mp3Thread_iteration env st = Some (Waiting, st)"
  by (simp add: Mp3Thread_iteration_def Mp3Thread_locked_def)

lemma Mp3Thread_iteration_done:
  "\<not> m_isStopping st \<Longrightarrow> m_mp3Queue st = [] \<Longrightarrow> m_mp3QueueDone st
    \<Longrightarrow> Mp3Thread_iteration env st
        = Some (Waiting, (SpeakComplete st)\<lparr>mp3Decoder := [], m_mp3QueueDone := False\<rparr>)"
  by (simp add: Mp3Thread_iteration_def Mp3Thread_locked_def)

lemma Mp3Thread_iteration_dequeue:
  "\<not> m_isStopping st \<Longrightarrow> m_mp3Queue st = m # q
    \<Longrightarrow> Mp3Thread_iteration env st
        = map_option (Pair Waiting) (Mp3Thread_process env m (st\<lparr>m_mp3Queue := q\<rparr>))"
  by (simp add: Mp3Thread_iteration_def Mp3Thread_locked_def)

lemma Mp3Thread_iteration_fifo:
  assumes "Mp3Thread_iteration env st = Some (w, st')"
  shows "(decoded st' = decoded st \<and> m_mp3Queue st' = m_mp3Queue st)
       \<or> (\<exists>m. m_mp3Queue st = m # m_mp3Queue st' \<and> decoded st' = decoded st @ audios [m])"
proof (cases "m_isStopping st")
  case True
  with assms show ?thesis by (simp add: Mp3Thread_iteration_stopping)
next
  case False
  show ?thesis
  proof (cases "m_mp3Queue st")
    case Nil
    show ?thesis
    proof (cases "m_mp3QueueDone st")
      case True
      with False Nil assms
      have "st' = (SpeakComplete st)\<lparr>mp3Decoder := [], m_mp3QueueDone := False\<rparr>"
        by (simp add: Mp3Thread_iteration_done)
      then have c: "calls st' = calls st" and q: "m_mp3Queue st' = m_mp3Queue st"
        by (simp_all add: SpeakComplete_fields)
      from decoded_cong [OF c] q show ?thesis by simp
    next
      case nd: False
      with False Nil assms show ?thesis by (simp add: Mp3Thread_iteration_idle)
    qed
  next
    case (Cons m q)
    with False assms have p: "Mp3Thread_process env m (st\<lparr>m_mp3Queue := q\<rparr>) = Some st'"
      by (auto simp: Mp3Thread_iteration_dequeue)
    have "decoded (st\<lparr>m_mp3Queue := q\<rparr>) = decoded st"
      by (simp add: decoded_def)
    with Mp3Thread_process_effect [OF p] Cons
    have "m_mp3Queue st = m # m_mp3Queue st'" "decoded st' = decoded st @ audios [m]"
      by simp_all
    then show ?thesis by blast
  qed
qed

lemma pipeline_fifo:
  assumes "pipeline env acts st = Some st'"
  shows "\<exists>j. decoded st' = decoded st @ audios (take j (m_mp3Queue st @ pushed acts))
           \<and> m_mp3Queue st' = drop j (m_mp3Queue st @ pushed acts)"
  using assms
proof (induction acts arbitrary: st)
  case Nil
  then have "st' = st" by simp
  then have "decoded st' = decoded st @ audios (take 0 (m_mp3Queue st @ pushed []))
      \<and> m_mp3Queue st' = drop 0 (m_mp3Queue st @ pushed [])"
    by (simp add: audios_simps)
  then show ?case by (rule exI)
next
  case (Cons a acts)
  show ?case
  proof (cases a)
    case (Push msg)
    with Cons.prems have "pipeline env acts (Mp3QueuePush msg st) = Some st'" by simp
    from Cons.IH [OF this] obtain j where
      "decoded st' = decoded (Mp3QueuePush msg st)
          @ audios (take j (m_mp3Queue (Mp3QueuePush msg st) @ pushed acts))"
      "m_mp3Queue st' = drop j (m_mp3Queue (Mp3QueuePush msg st) @ pushed acts)"
      by blast
    moreover have "decoded (Mp3QueuePush msg st) = decoded st"
      by (simp add: Mp3QueuePush_def decoded_def)
    moreover have "m_mp3Queue (Mp3QueuePush msg st) @ pushed acts
        = m_mp3Queue st @ pushed (a # acts)"
      using Push by (simp add: Mp3QueuePush_def)
    ultimately have "decoded st' = decoded st @ audios (take j (m_mp3Queue st @ pushed (a # acts)))
        \<and> m_mp3Queue st' = drop j (m_mp3Queue st @ pushed (a # acts))"
      by simp
    then show ?thesis by (rule exI)
  next
    case QueueDone
    with Cons.prems have "pipeline env acts (Mp3QueueDone st) = Some st'" by simp
    from Cons.IH [OF this] obtain j where
      "decoded st' = decoded (Mp3QueueDone st)
          @ audios (take j (m_mp3Queue (Mp3QueueDone st) @ pushed acts))"
      "m_mp3Queue st' = drop j (m_mp3Queue (Mp3QueueDone st) @ pushed acts)"
      by blast
    moreover have "decoded (Mp3QueueDone st) = decoded st"
      "m_mp3Queue (Mp3QueueDone st) = m_mp3Queue st"
      by (simp_all add: Mp3QueueDone_def decoded_def)
    moreover have "pushed (a # acts) = pushed acts"
      using QueueDone by simp
    ultimately have "decoded st' = decoded st @ audios (take j (m_mp3Queue st @ pushed (a # acts)))
        \<and> m_mp3Queue st' = drop j (m_mp3Queue st @ pushed (a # acts))"
      by simp
    then show ?thesis by (rule exI)
  next
    case Worker
    with Cons.prems obtain w s where it: "Mp3Thread_iteration env st = Some (w, s)"
      and rest: "pipeline env acts s = Some st'"
      by (auto split: option.splits)
    have pw: "pushed (a # acts) = pushed acts"
      using Worker by simp
    from Cons.IH [OF rest] obtain j where
      j: "decoded st' = decoded s @ audios (take j (m_mp3Queue s @ pushed acts))"
         "m_mp3Queue st' = drop j (m_mp3Queue s @ pushed acts)"
      by blast
    from Mp3Thread_iteration_fifo [OF it] show ?thesis
    proof
      assume "decoded s = decoded st \<and> m_mp3Queue s = m_mp3Queue st"
      with j pw have "decoded st' = decoded st @ audios (take j (m_mp3Queue st @ pushed (a # acts)))
        \<and> m_mp3Queue st' = drop j (m_mp3Queue st @ pushed (a # acts))"
        by simp
      then show ?thesis by (rule exI)
    next
      assume "\<exists>m. m_mp3Queue st = m # m_mp3Queue s \<and> decoded s = decoded st @ audios [m]"
      then obtain m where m: "m_mp3Queue st = m # m_mp3Queue s"
        "decoded s = decoded st @ audios [m]"
        by blast
      have "audios (take (Suc j) (m_mp3Queue st @ pushed acts))
          = audios [m] @ audios (take j (m_mp3Queue s @ pushed acts))"
        using audios_append [of "[m]" "take j (m_mp3Queue s @ pushed acts)"]
        by (simp add: m(1))
      with j m pw have
        "decoded st' = decoded st @ audios (take (Suc j) (m_mp3Queue st @ pushed (a # acts)))
         \<and> m_mp3Queue st' = drop (Suc j) (m_mp3Queue st @ pushed (a # acts))"
        by simp
      then show ?thesis by (rule exI)
    qed
  qed
qed

lemma Stop_fields:
  "m_mp3Queue (Stop st) = []" "m_mp3QueueDone (Stop st)" "decoded (Stop st) = decoded st"
  by (simp_all add: Stop_def Let_def decoded_def record_call_def map_filter_append
      split: option.splits)

lemma pipeline_empty_defined:
  assumes "m_mp3Queue st = []" and "pushed acts = []"
  shows "\<exists>st'. pipeline env acts st = Some st' \<and> m_mp3Queue st' = []"
  using assms
proof (induction acts arbitrary: st)
  case Nil
  then show ?case by simp
next
  case (Cons a acts)
  show ?case
  proof (cases a)
    case (Push msg)
    with Cons.prems show ?thesis by simp
  next
    case QueueDone
    have "m_mp3Queue (Mp3QueueDone st) = []"
      using Cons.prems(1) by (simp add: Mp3QueueDone_def)
    moreover from Cons.prems(2) QueueDone have "pushed acts = []" by simp
    ultimately have "\<exists>st'. pipeline env acts (Mp3QueueDone st) = Some st' \<and> m_mp3Queue st' = []"
      by (rule Cons.IH)
    with QueueDone show ?thesis by simp
  next
    case Worker
    from Cons.prems(2) Worker have pa: "pushed acts = []" by simp
    have "\<exists>w s. Mp3Thread_iteration env st = Some (w, s) \<and> m_mp3Queue s = []"
    proof (cases "m_isStopping st")
      case True
      with Cons.prems(1) show ?thesis by (simp add: Mp3Thread_iteration_stopping)
    next
      case False
      show ?thesis
      proof (cases "m_mp3QueueDone st")
        case True
        with False Cons.prems(1) show ?thesis
          by (simp add: Mp3Thread_iteration_done SpeakComplete_fields)
      next
        case nd: False
        with False Cons.prems(1) show ?thesis by (simp add: Mp3Thread_iteration_idle)
      qed
    qed
    then obtain w s where it: "Mp3Thread_iteration env st = Some (w, s)" and q: "m_mp3Queue s = []"
      by blast
    from Cons.IH [OF q pa] obtain st' where "pipeline env acts s = Some st'" "m_mp3Queue st' = []"
      by blast
    with Worker it show ?thesis by simp
  qed
qed

text \<open>
  Claim C8. After \<^verbatim>\<open>Stop\<close> the queue is empty and the marker \<open>m_mp3QueueDone\<close> is set.
  What was in the queue is never passed to the decoder: in every run of the pipeline that
  follows, the chunks decoded after the stop come from messages enqueued after it, in
  order, and a run that enqueues nothing decodes nothing and has no undefined step.
\<close>

theorem C8_stop_discards_pending:
  "m_mp3Queue (Stop st) = [] \<and> m_mp3QueueDone (Stop st)
   \<and> (pushed acts = [] \<longrightarrow>
        map_option decoded (pipeline env acts (Stop st)) = Some (decoded st))
   \<and> (pipeline env acts (Stop st) = Some st' \<longrightarrow>
        (\<exists>j. decoded st' = decoded st @ audios (take j (pushed acts))))"
proof (intro conjI impI)
  show "m_mp3Queue (Stop st) = []" and "m_mp3QueueDone (Stop st)"
    by (simp_all add: Stop_fields)
next
  assume pa: "pushed acts = []"
  from pipeline_empty_defined [OF Stop_fields(1) pa, of env st]
  obtain st' where r: "pipeline env acts (Stop st) = Some st'"
    by blast
  from pipeline_fifo [OF r] pa have "decoded st' = decoded st"
    by (simp add: Stop_fields audios_simps)
  with r show "map_option decoded (pipeline env acts (Stop st)) = Some (decoded st)"
    by simp
next
  assume r: "pipeline env acts (Stop st) = Some st'"
  from pipeline_fifo [OF r]
  show "\<exists>j. decoded st' = decoded st @ audios (take j (pushed acts))"
    by (auto simp: Stop_fields)
qed

lemma SpeakComplete_unresolved:
  "\<not> m_isPromiseSet st \<Longrightarrow>
     m_isPromiseSet (SpeakComplete st) \<and> m_speakPromise (SpeakComplete st) = m_speakPromise st @ [Value]"
  by (simp add: SpeakComplete_def test_and_set_def promise_set_def)

lemma pipeline_inv_worker:
  assumes inv: "pipeline_inv d st"
    and nr: "\<forall>fed chunk. Convert_raises env fed chunk = None"
  shows "\<exists>w st'. Mp3Thread_iteration env st = Some (w, st') \<and> pipeline_inv d st'"
proof -
  from inv have ns: "\<not> m_isStopping st" by (simp add: pipeline_inv_def)
  show ?thesis
  proof (cases "m_mp3Queue st")
    case Nil
    show ?thesis
    proof (cases "m_mp3QueueDone st")
      case True
      let ?s = "(SpeakComplete st)\<lparr>mp3Decoder := [], m_mp3QueueDone := False\<rparr>"
      from ns Nil True have it: "Mp3Thread_iteration env st = Some (Waiting, ?s)"
        by (rule Mp3Thread_iteration_done)
      from inv True have d: "d" and u: "\<not> m_isPromiseSet st" and p: "m_speakPromise st = []"
        by (auto simp: pipeline_inv_def split: if_splits)
      from SpeakComplete_unresolved [OF u] p ns Nil d have "pipeline_inv d ?s"
        by (simp add: pipeline_inv_def SpeakComplete_fields)
      with it show ?thesis by blast
    next
      case False
      from ns Nil False have "Mp3Thread_iteration env st = Some (Waiting, st)"
        by (rule Mp3Thread_iteration_idle)
      with inv show ?thesis by blast
    qed
  next
    case (Cons m q)
    let ?s = "st\<lparr>m_mp3Queue := q\<rparr>"
    from inv Cons have len: "2 \<le> length m" and rest: "list_all (\<lambda>m. 2 \<le> length m) q"
      by (simp_all add: pipeline_inv_def)
    from Mp3Thread_process_defined [OF len, of env ?s]
    obtain st' where p: "Mp3Thread_process env m ?s = Some st'" by blast
    from ns Cons p have it: "Mp3Thread_iteration env st = Some (Waiting, st')"
      by (simp add: Mp3Thread_iteration_dequeue)
    from Mp3Thread_process_effect [OF p] Mp3Thread_process_no_raise [OF nr p]
    have e: "m_mp3Queue st' = q" "m_mp3QueueDone st' = m_mp3QueueDone st"
      "m_isStopping st' = m_isStopping st" "m_isPromiseSet st' = m_isPromiseSet st"
      "m_speakPromise st' = m_speakPromise st"
      by simp_all
    from inv Cons have "pipeline_inv d st'"
      unfolding pipeline_inv_def e using rest by (auto split: if_splits)
    with it show ?thesis by blast
  qed
qed

lemma pipeline_inv_run:
  assumes "pipeline_inv d st" and "script_ok d acts"
    and nr: "\<forall>fed chunk. Convert_raises env fed chunk = None"
  shows "\<exists>st'. pipeline env acts st = Some st' \<and> pipeline_inv (d \<or> QueueDone \<in> set acts) st'"
  using assms(1,2)
proof (induction acts arbitrary: d st)
  case Nil
  then show ?case by simp
next
  case (Cons a acts)
  show ?case
  proof (cases a)
    case (Push msg)
    with Cons.prems(2) have nd: "\<not> d" and len: "2 \<le> length msg" and ok: "script_ok d acts"
      by auto
    from Cons.prems(1) nd len have "pipeline_inv d (Mp3QueuePush msg st)"
      by (simp add: pipeline_inv_def Mp3QueuePush_def)
    from Cons.IH [OF this ok] Push show ?thesis by simp
  next
    case QueueDone
    with Cons.prems(2) have nd: "\<not> d" and ok: "script_ok True acts"
      by auto
    from Cons.prems(1) nd have "pipeline_inv True (Mp3QueueDone st)"
      by (simp add: pipeline_inv_def Mp3QueueDone_def)
    from Cons.IH [OF this ok] QueueDone show ?thesis by simp
  next
    case Worker
    with Cons.prems(2) have ok: "script_ok d acts" by simp
    from pipeline_inv_worker [OF Cons.prems(1) nr]
    obtain w s where it: "Mp3Thread_iteration env st = Some (w, s)" and inv: "pipeline_inv d s"
      by blast
    from Cons.IH [OF inv ok] Worker it show ?thesis by simp
  qed
qed

lemma idle_workers:
  assumes "\<not> m_isStopping st" "m_mp3Queue st = []" "\<not> m_mp3QueueDone st"
  shows "pipeline env (replicate n Worker) st = Some st"
  using assms by (induction n) (simp_all add: Mp3Thread_iteration_idle)

lemma drain:
  assumes "pipeline_inv True st" and "length (m_mp3Queue st) < n"
    and nr: "\<forall>fed chunk. Convert_raises env fed chunk = None"
  shows "\<exists>st'. pipeline env (replicate n Worker) st = Some st'
           \<and> m_speakPromise st' = [Value] \<and> m_mp3Queue st' = []"
  using assms(1,2)
proof (induction n arbitrary: st)
  case 0
  then show ?case by simp
next
  case (Suc n)
  from pipeline_inv_worker [OF Suc.prems(1) nr]
  obtain w s where it: "Mp3Thread_iteration env st = Some (w, s)" and inv: "pipeline_inv True s"
    by blast
  show ?case
  proof (cases "m_speakPromise s = [Value]")
    case True
    with inv have "\<not> m_isStopping s" "m_mp3Queue s = []" "\<not> m_mp3QueueDone s"
      by (auto simp: pipeline_inv_def)
    from idle_workers [OF this, of env n] it True \<open>m_mp3Queue s = []\<close> show ?thesis
      by simp
  next
    case False
    with inv have dn: "m_mp3QueueDone s" by (auto simp: pipeline_inv_def)
    from Suc.prems(1) have ns: "\<not> m_isStopping st" by (simp add: pipeline_inv_def)
    have "length (m_mp3Queue s) < n"
    proof (cases "m_mp3Queue st")
      case Nil
      show ?thesis
      proof (cases "m_mp3QueueDone st")
        case True
        with ns Nil it have "s = (SpeakComplete st)\<lparr>mp3Decoder := [], m_mp3QueueDone := False\<rparr>"
          by (simp add: Mp3Thread_iteration_done)
        with dn show ?thesis by simp
      next
        case nd: False
        with Suc.prems(1) Nil have "m_speakPromise st = [Value]"
          by (auto simp: pipeline_inv_def)
        moreover from ns Nil nd it have "s = st" by (simp add: Mp3Thread_iteration_idle)
        ultimately show ?thesis using False by simp
      qed
    next
      case (Cons m q)
      with ns it have "Mp3Thread_process env m (st\<lparr>m_mp3Queue := q\<rparr>) = Some s"
        by (auto simp: Mp3Thread_iteration_dequeue)
      from Mp3Thread_process_effect [OF this] have "m_mp3Queue s = q" by simp
      with Cons Suc.prems(2) show ?thesis by simp
    qed
    from Suc.IH [OF inv this] it show ?thesis by simp
  qed
qed

lemma pipeline_append:
  "pipeline env (xs @ ys) st
     = (case pipeline env xs st of None \<Rightarrow> None | Some s \<Rightarrow> pipeline env ys s)"
proof (induction xs arbitrary: st)
  case Nil
  show ?case by simp
next
  case (Cons a xs)
  then show ?case by (cases a) (simp_all split: option.splits)
qed

lemma only_workers:
  assumes "filter (\<lambda>a. a \<noteq> Worker) acts = []"
  shows "script_ok d acts \<and> pushed acts = [] \<and> QueueDone \<notin> set acts"
  using assms
proof (induction acts)
  case Nil
  show ?case by simp
next
  case (Cons a acts)
  then show ?case by (cases a) (simp_all split: if_splits)
qed

lemma script_of_filter:
  assumes "filter (\<lambda>a. a \<noteq> Worker) acts = map Push ps @ [QueueDone]"
    and "list_all (\<lambda>m. 2 \<le> length m) ps"
  shows "script_ok False acts \<and> pushed acts = ps \<and> QueueDone \<in> set acts"
  using assms
proof (induction acts arbitrary: ps)
  case Nil
  then show ?case by simp
next
  case (Cons a acts)
  show ?case
  proof (cases a)
    case Worker
    with Cons.prems have "filter (\<lambda>a. a \<noteq> Worker) acts = map Push ps @ [QueueDone]"
      by simp
    from Cons.IH [OF this Cons.prems(2)] Worker show ?thesis by simp
  next
    case (Push msg)
    with Cons.prems(1) have f: "Push msg # filter (\<lambda>a. a \<noteq> Worker) acts = map Push ps @ [QueueDone]"
      by simp
    then obtain ps' where ps: "ps = msg # ps'"
      by (cases ps) simp_all
    with f have "filter (\<lambda>a. a \<noteq> Worker) acts = map Push ps' @ [QueueDone]"
      by simp
    moreover from Cons.prems(2) ps have len: "2 \<le> length msg" and "list_all (\<lambda>m. 2 \<le> length m) ps'"
      by simp_all
    ultimately have "script_ok False acts \<and> pushed acts = ps' \<and> QueueDone \<in> set acts"
      using Cons.IH by blast
    with Push ps len show ?thesis by simp
  next
    case QueueDone
    with Cons.prems(1) have f: "QueueDone # filter (\<lambda>a. a \<noteq> Worker) acts = map Push ps @ [QueueDone]"
      by simp
    then have ps: "ps = []"
      by (cases ps) simp_all
    with f have "filter (\<lambda>a. a \<noteq> Worker) acts = []" by simp
    from only_workers [OF this, of True] QueueDone ps show ?thesis by simp
  qed
qed

lemma script_ok_append_workers:
  "script_ok d acts \<Longrightarrow> script_ok d (acts @ replicate n Worker)"
proof (induction acts arbitrary: d)
  case Nil
  show ?case by (induction n) simp_all
next
  case (Cons a acts)
  then show ?case by (cases a) auto
qed

lemma pushed_append_workers: "pushed (acts @ replicate n Worker) = pushed acts"
proof (induction acts)
  case Nil
  show ?case by (induction n) simp_all
next
  case (Cons a acts)
  then show ?case by (cases a) simp_all
qed

lemma script_ok_take: "script_ok d acts \<Longrightarrow> script_ok d (take n acts)"
proof (induction acts arbitrary: d n)
  case Nil
  show ?case by simp
next
  case (Cons a acts)
  show ?case
  proof (cases n)
    case 0
    then show ?thesis by simp
  next
    case (Suc k)
    with Cons show ?thesis by (cases a) auto
  qed
qed

lemma script_ok_issued_pushed: "script_ok True acts \<Longrightarrow> pushed acts = []"
proof (induction acts)
  case Nil
  show ?case by simp
next
  case (Cons a acts)
  then show ?case by (cases a) simp_all
qed

lemma pushed_take_issued:
  "script_ok d acts \<Longrightarrow> QueueDone \<in> set (take n acts) \<Longrightarrow> pushed (take n acts) = pushed acts"
proof (induction acts arbitrary: d n)
  case Nil
  then show ?case by simp
next
  case (Cons a acts)
  from Cons.prems(2) obtain k where n: "n = Suc k" by (cases n) simp_all
  show ?case
  proof (cases a)
    case (Push msg)
    with Cons.prems n have "script_ok d acts" "QueueDone \<in> set (take k acts)" by auto
    from Cons.IH [OF this] Push n show ?thesis by simp
  next
    case QueueDone
    with Cons.prems(1) have ok: "script_ok True acts" by simp
    from script_ok_issued_pushed [OF ok] script_ok_issued_pushed [OF script_ok_take [OF ok, of k]]
      QueueDone n
    show ?thesis by simp
  next
    case Worker
    with Cons.prems n have "script_ok d acts" "QueueDone \<in> set (take k acts)" by simp_all
    from Cons.IH [OF this] Worker n show ?thesis by simp
  qed
qed

lemma audio_of_length:
  assumes "audio_of p = Some a"
  shows "2 \<le> length p"
proof -
  from assms obtain d where "sv_find (drop 2 p) audio_marker 0 = Some d"
    by (auto simp: audio_of_def split: option.splits)
  from sv_find_bound [OF this] have "12 \<le> length p - 2"
    by (simp add: length_audio_marker)
  then show ?thesis by simp
qed

lemma pipeline_drained:
  assumes "pipeline env acts st = Some st'" and "m_mp3Queue st = []" and "m_mp3Queue st' = []"
  shows "decoded st' = decoded st @ audios (pushed acts)"
proof -
  from pipeline_fifo [OF assms(1)] assms(2) obtain j where
    j: "decoded st' = decoded st @ audios (take j (pushed acts))"
       "m_mp3Queue st' = drop j (pushed acts)"
    by auto
  from j(2) assms(3) have "take j (pushed acts) = pushed acts" by simp
  with j(1) show ?thesis by simp
qed

text \<open>
  Claim C9 speaks of any three payloads and of any decoder. A payload without the
  \<^verbatim>\<open>Path:audio\<close> line is taken from the queue and dropped, so the decoder receives two
  chunks; and when the decoder raises, the completion is resolved with its exception, and
  the success that follows the empty queue changes nothing.
\<close>

theorem C9_marker_and_error_counterexample:
  "map_option decoded (pipeline test_env
      ([Push (audio_message ''a1''), Push ''xxPath:other'', Push (audio_message ''a3''),
        QueueDone] @ replicate 4 Worker) started)
     = Some [''a1'', ''a3'']
   \<and> map_option m_speakPromise (pipeline raising_env
      ([Push (audio_message ''a1''), Push (audio_message ''a2''), Push (audio_message ''a3''),
        QueueDone] @ replicate 4 Worker) started)
     = Some [Exception (DecoderError 1)]"
  by code_simp

text \<open>
  Claim C9, as the code has it. From an idle pipeline and an unresolved completion, with a
  decoder that does not raise: when the producer enqueues three messages \<open>p1\<close>, \<open>p2\<close>,
  \<open>p3\<close> that carry the \<^verbatim>\<open>Path:audio\<close> line and then marks the end, with no stop, then
  however the activations of the worker fall between these four steps, and with four
  activations after them, the decoder has received the audio of \<open>p1\<close>, \<open>p2\<close>, \<open>p3\<close>
  in this order and nothing else, the queue is empty and the completion is resolved with
  success; and at no moment of the run is the completion resolved before the three chunks
  are decoded and the queue is empty.
\<close>

theorem C9_fifo_then_complete:
  assumes idle: "m_mp3Queue st = []" "\<not> m_mp3QueueDone st" "\<not> m_isStopping st"
    and fresh: "\<not> m_isPromiseSet st" "m_speakPromise st = []"
    and nr: "\<forall>fed chunk. Convert_raises env fed chunk = None"
    and au: "audio_of p1 = Some a1" "audio_of p2 = Some a2" "audio_of p3 = Some a3"
    and script: "filter (\<lambda>a. a \<noteq> Worker) acts = [Push p1, Push p2, Push p3, QueueDone]"
  shows "map_option decoded (pipeline env (acts @ replicate 4 Worker) st)
       = Some (decoded st @ [a1, a2, a3])
     \<and> map_option m_speakPromise (pipeline env (acts @ replicate 4 Worker) st) = Some [Value]
     \<and> map_option m_mp3Queue (pipeline env (acts @ replicate 4 Worker) st) = Some []
     \<and> (\<forall>n st'. pipeline env (take n (acts @ replicate 4 Worker)) st = Some st'
            \<and> m_speakPromise st' \<noteq> []
          \<longrightarrow> decoded st' = decoded st @ [a1, a2, a3] \<and> m_mp3Queue st' = [])"
proof -
  let ?run = "acts @ replicate 4 Worker"
  have aud: "audios [p1, p2, p3] = [a1, a2, a3]"
    using au by (simp add: audios_simps)
  have "list_all (\<lambda>m. 2 \<le> length m) [p1, p2, p3]"
    using au by (simp add: audio_of_length)
  moreover have "filter (\<lambda>a. a \<noteq> Worker) acts = map Push [p1, p2, p3] @ [QueueDone]"
    using script by simp
  ultimately have ok: "script_ok False acts" and pu: "pushed acts = [p1, p2, p3]"
    and iss: "QueueDone \<in> set acts"
    using script_of_filter [of acts "[p1, p2, p3]"] by simp_all
  have inv0: "pipeline_inv False st"
    using idle fresh by (simp add: pipeline_inv_def)
  have okr: "script_ok False ?run"
    using ok by (rule script_ok_append_workers)
  have pur: "pushed ?run = [p1, p2, p3]"
    using pu by (simp add: pushed_append_workers)
  from pipeline_inv_run [OF inv0 ok nr] iss
  obtain s where s: "pipeline env acts st = Some s" and invs: "pipeline_inv True s"
    by auto
  from pipeline_fifo [OF s] idle(1) pu obtain j where "m_mp3Queue s = drop j [p1, p2, p3]"
    by auto
  then have "length (m_mp3Queue s) < 4" by simp
  from drain [OF invs this nr]
  obtain st' where d: "pipeline env (replicate 4 Worker) s = Some st'"
    and pv: "m_speakPromise st' = [Value]" and q: "m_mp3Queue st' = []"
    by blast
  from s d have r: "pipeline env ?run st = Some st'"
    by (simp add: pipeline_append)
  from pipeline_drained [OF r idle(1) q] pur aud
  have dec: "decoded st' = decoded st @ [a1, a2, a3]" by simp
  have pre: "decoded s' = decoded st @ [a1, a2, a3] \<and> m_mp3Queue s' = []"
    if run: "pipeline env (take n ?run) st = Some s'" and res: "m_speakPromise s' \<noteq> []"
    for n s'
  proof -
    have okn: "script_ok False (take n ?run)"
      using okr by (rule script_ok_take)
    from pipeline_inv_run [OF inv0 okn nr] run
    have inv: "pipeline_inv (QueueDone \<in> set (take n ?run)) s'"
      by auto
    with res have i: "QueueDone \<in> set (take n ?run)" and e: "m_mp3Queue s' = []"
      by (auto simp: pipeline_inv_def split: if_splits)
    from pushed_take_issued [OF okr i] pur have "pushed (take n ?run) = [p1, p2, p3]"
      by simp
    with pipeline_drained [OF run idle(1) e] aud e show ?thesis by simp
  qed
  have "map_option decoded (pipeline env ?run st) = Some (decoded st @ [a1, a2, a3])"
    and "map_option m_speakPromise (pipeline env ?run st) = Some [Value]"
    and "map_option m_mp3Queue (pipeline env ?run st) = Some []"
    using r dec pv q by simp_all
  with pre show ?thesis by blast
qed

lemma audio_of_audio_message: "audio_of (audio_message a) = Some a"
  by (simp add: audio_of_def audio_message_def sv_find_def audio_marker_def)

text \<open>
  A run in which the worker is activated once between the first and the second message.
\<close>

theorem C9_fifo_then_complete_witness:
  "map_option decoded (pipeline test_env
      ([Push (audio_message ''a1''), Worker, Push (audio_message ''a2''),
        Push (audio_message ''a3''), QueueDone] @ replicate 4 Worker) started)
     = Some (decoded started @ [''a1'', ''a2'', ''a3''])
   \<and> map_option m_speakPromise (pipeline test_env
      ([Push (audio_message ''a1''), Worker, Push (audio_message ''a2''),
        Push (audio_message ''a3''), QueueDone] @ replicate 4 Worker) started)
     = Some [Value]"
proof -
  let ?acts = "[Push (audio_message ''a1''), Worker, Push (audio_message ''a2''),
        Push (audio_message ''a3''), QueueDone]"
  have nr: "\<forall>fed chunk. Convert_raises test_env fed chunk = None"
    by (simp add: test_env_def)
  have script: "filter (\<lambda>a. a \<noteq> Worker) ?acts
      = [Push (audio_message ''a1''), Push (audio_message ''a2''),
         Push (audio_message ''a3''), QueueDone]"
    by simp
  note t = C9_fifo_then_complete [of started test_env "audio_message ''a1''" "''a1''"
      "audio_message ''a2''" "''a2''" "audio_message ''a3''" "''a3''" ?acts,
      OF started_simps(3) started_simps(6) started_simps(7) started_simps(5) started_simps(4)
         nr audio_of_audio_message audio_of_audio_message audio_of_audio_message script]
  from t show ?thesis by blast
qed

text \<open>
  A stop with two messages pending, followed by a run of the worker, and by a run with a
  new message.
\<close>

theorem C8_stop_discards_pending_witness:
  "m_mp3Queue pending = [audio_message ''p1'', audio_message ''p2'']
   \<and> m_mp3Queue (Stop pending) = [] \<and> m_mp3QueueDone (Stop pending)
   \<and> map_option decoded (pipeline test_env [Worker, Worker, QueueDone, Worker] (Stop pending))
       = Some (decoded pending)
   \<and> (\<exists>j. decoded (the (pipeline test_env [Push (audio_message ''p3''), Worker] (Stop pending)))
         = decoded pending @ audios (take j (pushed [Push (audio_message ''p3''), Worker])))"
proof -
  have a: "m_mp3Queue pending = [audio_message ''p1'', audio_message ''p2'']"
    by (simp add: pending_def)
  have h1: "pushed [Worker, Worker, QueueDone, Worker] = []"
    by simp
  have "pipeline test_env [Push (audio_message ''p3''), Worker] (Stop pending) \<noteq> None"
    by code_simp
  then have h2: "pipeline test_env [Push (audio_message ''p3''), Worker] (Stop pending)
      = Some (the (pipeline test_env [Push (audio_message ''p3''), Worker] (Stop pending)))"
    by simp
  note t1 = C8_stop_discards_pending [of pending "[Worker, Worker, QueueDone, Worker]" test_env]
  note t2 = C8_stop_discards_pending [of pending "[Push (audio_message ''p3''), Worker]" test_env
      "the (pipeline test_env [Push (audio_message ''p3''), Worker] (Stop pending))"]
  from t1 have b: "m_mp3Queue (Stop pending) = []" and c: "m_mp3QueueDone (Stop pending)"
    by blast+
  from t1 h1 have d: "map_option decoded
      (pipeline test_env [Worker, Worker, QueueDone, Worker] (Stop pending))
       = Some (decoded pending)"
    by blast
  from t2 h2 have e: "\<exists>j. decoded (the (pipeline test_env [Push (audio_message ''p3''), Worker]
        (Stop pending)))
         = decoded pending @ audios (take j (pushed [Push (audio_message ''p3''), Worker]))"
    by blast
  from a b c d e show ?thesis by blast
qed

end
